theory Spec2Isabelle
  imports
    Complex_Main
    "HOL-Library.AList"
    "HOL-Library.Char_ord"
    "HOL-Library.List_Lexorder"
    "HOL-Library.Multiset"
begin

section \<open>The store behind the adapter\<close>

text \<open>
  \<^verbatim>\<open>RedisTableAdapter\<close> keeps all of its data in a Redis server and reaches it through
  single commands, pipelines and \<^verbatim>\<open>WATCH\<close>/\<^verbatim>\<open>MULTI\<close>/\<^verbatim>\<open>EXEC\<close> transactions. The server
  has one key space: under a key there is nothing, or a value of one type,
  \<^item> a string (the id counters and the sessions),
  \<^item> a hash (the rows), an association list from field name to value,
  \<^item> a set (schemas, membership sets, field-value indexes), a list of its members,
  \<^item> a sorted set, an association list from member to score.

  The keys are the very strings the adapter builds. \<open>r_strings\<close>, \<open>r_hashes\<close>, \<open>r_sets\<close> and
  \<open>r_zsets\<close> read a key as one type: what is stored there if it has that type, and the
  empty value of the type otherwise. A command sent to a key that holds another type is
  answered \<^verbatim>\<open>WRONGTYPE\<close>. The adapter awaits some commands directly, and then the error
  is thrown; the errors of commands inside a pipeline or a \<^verbatim>\<open>MULTI\<close> block come back in the
  reply array, which the adapter never reads (\<open>quiet\<close>).

  A JavaScript object with string keys is an association list whose keys are distinct, in
  property order.
\<close>

type_synonym Row = "(string \<times> string) list"

datatype rvalue =
    RString string
  | RHash Row
  | RSet "string list"
  | RZSet "(string \<times> real) list"

record store =
  r_keys :: "string \<Rightarrow> rvalue option"
  r_expiry :: "string \<Rightarrow> nat option"
  r_watched :: "string list"

definition empty_store :: store where
  "empty_store = \<lparr>r_keys = (\<lambda>_. None), r_expiry = (\<lambda>_. None), r_watched = []\<rparr>"

definition r_strings :: "store \<Rightarrow> string \<Rightarrow> string option" where
  "r_strings s key = (case r_keys s key of Some (RString v) \<Rightarrow> Some v | _ \<Rightarrow> None)"

definition r_hashes :: "store \<Rightarrow> string \<Rightarrow> Row" where
  "r_hashes s key = (case r_keys s key of Some (RHash h) \<Rightarrow> h | _ \<Rightarrow> [])"

definition r_sets :: "store \<Rightarrow> string \<Rightarrow> string list" where
  "r_sets s key = (case r_keys s key of Some (RSet xs) \<Rightarrow> xs | _ \<Rightarrow> [])"

definition r_zsets :: "store \<Rightarrow> string \<Rightarrow> (string \<times> real) list" where
  "r_zsets s key = (case r_keys s key of Some (RZSet es) \<Rightarrow> es | _ \<Rightarrow> [])"

datatype error =
    SchemaAlreadyDefined string
  | SchemaEmpty
  | SchemaNotDefined string
  | MissingField string string
  | ExtraField string string
  | WrongType
  | NotAnInteger
  | IncrOverflow
  | MaxRetries string

subsection \<open>Decimal numerals\<close>

text \<open>
  \<^verbatim>\<open>INCR\<close> reads and writes its counter as a base-10 numeral of a signed 64-bit integer.
  The adapter receives the reply as a JavaScript number and turns it into the row id with
  \<^verbatim>\<open>toString()\<close>. A JavaScript number is a double: it holds the integers strictly between
  \<open>-2^53\<close> and \<open>2^53\<close> exactly, and there \<^verbatim>\<open>toString()\<close> is the decimal numeral. What a
  larger reply is rounded to, and how that prints, is floating-point arithmetic; it is the
  parameter \<open>number_text\<close> of \<open>reply_id\<close>.
\<close>

definition digit_char :: "nat \<Rightarrow> char" where
  "digit_char d = ''0123456789'' ! d"

definition digit_val :: "char \<Rightarrow> nat" where
  "digit_val c = of_char c - 48"

function show_nat :: "nat \<Rightarrow> string" where
  "show_nat n =
     (if n < 10 then [digit_char n] else show_nat (n div 10) @ [digit_char (n mod 10)])"
  by pat_completeness auto
termination
  by (relation "measure id") auto

declare show_nat.simps [simp del]

definition toString :: "int \<Rightarrow> string" where
  "toString i = (if i < 0 then CHR ''-'' # show_nat (nat (- i)) else show_nat (nat i))"

definition read_nat :: "string \<Rightarrow> nat" where
  "read_nat ds = foldl (\<lambda>acc c. 10 * acc + digit_val c) 0 ds"

definition read_int :: "string \<Rightarrow> int" where
  "read_int v = (case v of [] \<Rightarrow> 0
     | c # ds \<Rightarrow> if c = CHR ''-'' then - int (read_nat ds) else int (read_nat (c # ds)))"

definition parseInteger :: "string \<Rightarrow> int option" where
  \<comment> \<open>Redis accepts exactly the canonical numerals: no sign but \<^verbatim>\<open>-\<close>, no leading zero.\<close>
  "parseInteger v = (let i = read_int v in if toString i = v then Some i else None)"

definition parseInteger64 :: "string \<Rightarrow> int option" where
  "parseInteger64 v =
     (case parseInteger v of
        None \<Rightarrow> None
      | Some i \<Rightarrow> if - (2 ^ 63) \<le> i \<and> i < 2 ^ 63 then Some i else None)"

definition reply_id :: "(int \<Rightarrow> string) \<Rightarrow> int \<Rightarrow> string" where
  \<comment> \<open>\<^verbatim>\<open>currentId.toString()\<close> for the number that the integer reply \<open>n\<close> arrives as\<close>
  "reply_id number_text n =
     (if - (2 ^ 53) < n \<and> n < 2 ^ 53 then toString n else number_text n)"

subsection \<open>Key naming\<close>

definition schemaKey :: "string \<Rightarrow> string" where
  "schemaKey table = table @ '':schema''"

definition rowsSetKey :: "string \<Rightarrow> string" where
  "rowsSetKey table = table @ '':rows''"

definition nextIdKey :: "string \<Rightarrow> string" where
  "nextIdKey table = table @ '':next_id''"

definition rowKey :: "string \<Rightarrow> string \<Rightarrow> string" where
  "rowKey table rowId = table @ '':'' @ rowId"

definition indexKey :: "string \<Rightarrow> string \<Rightarrow> string \<Rightarrow> string" where
  "indexKey table field val = table @ '':index:'' @ field @ '':'' @ val"

definition sessionKey :: "string \<Rightarrow> string" where
  "sessionKey sessionId = ''session:'' @ sessionId"

subsection \<open>The Redis commands the adapter issues\<close>

text \<open>What \<^verbatim>\<open>SMEMBERS\<close>, \<^verbatim>\<open>SCARD\<close>, \<^verbatim>\<open>HGETALL\<close> and \<^verbatim>\<open>GET\<close> find under a key that holds
  the type they read, or nothing.\<close>

definition smembers :: "string \<Rightarrow> store \<Rightarrow> string list" where
  "smembers key s = remdups (r_sets s key)"

definition scard :: "string \<Rightarrow> store \<Rightarrow> nat" where
  "scard key s = length (remdups (r_sets s key))"

definition hgetall :: "string \<Rightarrow> store \<Rightarrow> Row" where
  "hgetall key s = r_hashes s key"

definition redis_get :: "string \<Rightarrow> store \<Rightarrow> string option" where
  "redis_get key s = r_strings s key"

text \<open>The replies to these commands on a key of any type; the adapter awaits every one
  of them, so an error reply is thrown.\<close>

definition exists_key :: "string \<Rightarrow> store \<Rightarrow> bool" where
  "exists_key key s = (r_keys s key \<noteq> None)"

definition smembers_reply :: "string \<Rightarrow> store \<Rightarrow> error + string list" where
  "smembers_reply key s =
     (case r_keys s key of
        None \<Rightarrow> Inr []
      | Some (RSet xs) \<Rightarrow> Inr (smembers key s)
      | Some _ \<Rightarrow> Inl WrongType)"

definition hgetall_reply :: "string \<Rightarrow> store \<Rightarrow> error + Row" where
  "hgetall_reply key s =
     (case r_keys s key of
        None \<Rightarrow> Inr []
      | Some (RHash h) \<Rightarrow> Inr (hgetall key s)
      | Some _ \<Rightarrow> Inl WrongType)"

definition scard_reply :: "string \<Rightarrow> store \<Rightarrow> error + nat" where
  "scard_reply key s =
     (case r_keys s key of
        None \<Rightarrow> Inr 0
      | Some (RSet xs) \<Rightarrow> Inr (scard key s)
      | Some _ \<Rightarrow> Inl WrongType)"

definition get_reply :: "string \<Rightarrow> store \<Rightarrow> error + string option" where
  "get_reply key s =
     (case r_keys s key of
        None \<Rightarrow> Inr None
      | Some (RString v) \<Rightarrow> Inr (redis_get key s)
      | Some _ \<Rightarrow> Inl WrongType)"

text \<open>Writing. Redis keeps no empty set: removing the last member removes the key.\<close>

definition put :: "string \<Rightarrow> rvalue \<Rightarrow> store \<Rightarrow> store" where
  "put key val s = s\<lparr>r_keys := (r_keys s)(key \<mapsto> val)\<rparr>"

definition del_key :: "string \<Rightarrow> store \<Rightarrow> store" where
  "del_key key s = s\<lparr>r_keys := (r_keys s)(key := None), r_expiry := (r_expiry s)(key := None)\<rparr>"

definition add_members :: "string list \<Rightarrow> string list \<Rightarrow> string list" where
  "add_members members xs = fold (\<lambda>m ys. if m \<in> set ys then ys else ys @ [m]) members xs"

definition sadd :: "string \<Rightarrow> string list \<Rightarrow> store \<Rightarrow> error + store" where
  "sadd key members s =
     (case r_keys s key of
        None \<Rightarrow> Inr (put key (RSet (add_members members [])) s)
      | Some (RSet xs) \<Rightarrow> Inr (put key (RSet (add_members members xs)) s)
      | Some _ \<Rightarrow> Inl WrongType)"

definition srem :: "string \<Rightarrow> string \<Rightarrow> store \<Rightarrow> error + store" where
  "srem key member s =
     (case r_keys s key of
        None \<Rightarrow> Inr s
      | Some (RSet xs) \<Rightarrow>
          Inr (if removeAll member xs = [] then del_key key s
               else put key (RSet (removeAll member xs)) s)
      | Some _ \<Rightarrow> Inl WrongType)"

definition hmset :: "string \<Rightarrow> Row \<Rightarrow> store \<Rightarrow> error + store" where
  "hmset key obj s =
     (case r_keys s key of
        None \<Rightarrow> Inr (put key (RHash (fold (\<lambda>(field, val) h. AList.update field val h) obj [])) s)
      | Some (RHash h0) \<Rightarrow>
          Inr (put key (RHash (fold (\<lambda>(field, val) h. AList.update field val h) obj h0)) s)
      | Some _ \<Rightarrow> Inl WrongType)"

definition redis_set :: "string \<Rightarrow> string \<Rightarrow> store \<Rightarrow> store" where
  \<comment> \<open>\<^verbatim>\<open>SET\<close> replaces a value of any type and ends its time to live\<close>
  "redis_set key val s =
     s\<lparr>r_keys := (r_keys s)(key \<mapsto> RString val), r_expiry := (r_expiry s)(key := None)\<rparr>"

definition setex :: "string \<Rightarrow> nat \<Rightarrow> string \<Rightarrow> store \<Rightarrow> store" where
  "setex key seconds val s =
     s\<lparr>r_keys := (r_keys s)(key \<mapsto> RString val), r_expiry := (r_expiry s)(key \<mapsto> seconds)\<rparr>"

definition incr :: "string \<Rightarrow> store \<Rightarrow> error + int \<times> store" where
  "incr key s =
     (case r_keys s key of
        None \<Rightarrow> Inr (1, put key (RString (toString 1)) s)
      | Some (RString v) \<Rightarrow>
          (case parseInteger64 v of
             None \<Rightarrow> Inl NotAnInteger
           | Some n \<Rightarrow>
               if n = 2 ^ 63 - 1 then Inl IncrOverflow
               else Inr (n + 1, put key (RString (toString (n + 1))) s))
      | Some _ \<Rightarrow> Inl WrongType)"

definition quiet :: "(store \<Rightarrow> error + store) \<Rightarrow> store \<Rightarrow> store" where
  \<comment> \<open>a command in a pipeline or a transaction: its error reply is not read\<close>
  "quiet command s = (case command s of Inl e \<Rightarrow> s | Inr s' \<Rightarrow> s')"

definition watch :: "string \<Rightarrow> store \<Rightarrow> store" where
  "watch key s = s\<lparr>r_watched := key # r_watched s\<rparr>"

definition unwatch :: "store \<Rightarrow> store" where
  "unwatch s = s\<lparr>r_watched := []\<rparr>"

section \<open>Schema management\<close>

definition createTable :: "string \<Rightarrow> string list \<Rightarrow> store \<Rightarrow> (error + unit) \<times> store" where
  "createTable table fieldNames s =
     (if exists_key (schemaKey table) s then (Inl (SchemaAlreadyDefined table), s)
      else if fieldNames = [] then (Inl SchemaEmpty, s)
      else
        case sadd (schemaKey table) fieldNames s of
          Inl e \<Rightarrow> (Inl e, s)
        | Inr s1 \<Rightarrow> (Inr (), s1))"

definition initNextId :: "string \<Rightarrow> store \<Rightarrow> store" where
  "initNextId table s = redis_set (nextIdKey table) ''0'' s"

section \<open>Row operations\<close>

definition obj_set :: "string \<Rightarrow> string \<Rightarrow> Row \<Rightarrow> Row" where
  \<comment> \<open>\<^verbatim>\<open>{ ...obj, key: val }\<close>: an own key keeps its place, a new one goes last.\<close>
  "obj_set key val obj = AList.update key val obj"

definition insert_row ::
  "(int \<Rightarrow> string) \<Rightarrow> string \<Rightarrow> Row \<Rightarrow> string \<Rightarrow> store \<Rightarrow> (error + string) \<times> store"
where
  \<comment> \<open>\<^verbatim>\<open>insert(table, row)\<close>; \<open>timestamp\<close> is what \<^verbatim>\<open>Date.now().toString()\<close> gives.\<close>
  "insert_row number_text table row timestamp s =
     (if \<not> exists_key (schemaKey table) s then (Inl (SchemaNotDefined table), s)
      else
        case smembers_reply (schemaKey table) s of
          Inl e \<Rightarrow> (Inl e, s)
        | Inr schemaFields \<Rightarrow>
        let rowFields = map fst row
        in case find (\<lambda>field. field \<notin> set rowFields) schemaFields of
             Some field \<Rightarrow> (Inl (MissingField field table), s)
           | None \<Rightarrow>
          (case find (\<lambda>field. field \<notin> set schemaFields) rowFields of
             Some field \<Rightarrow> (Inl (ExtraField field table), s)
           | None \<Rightarrow>
          (case incr (nextIdKey table) s of
             Inl e \<Rightarrow> (Inl e, s)
           | Inr (currentId, s1) \<Rightarrow>
               let rowId = reply_id number_text currentId;
                   rowWithTimestamp =
                     obj_set ''_updated_at'' timestamp (obj_set ''_created_at'' timestamp row)
               in case hmset (rowKey table rowId) rowWithTimestamp s1 of
                    Inl e \<Rightarrow> (Inl e, s1)
                  | Inr s2 \<Rightarrow>
                 (case sadd (rowsSetKey table) [rowId] s2 of
                    Inl e \<Rightarrow> (Inl e, s2)
                  | Inr s3 \<Rightarrow>
                      (Inr rowId,
                       fold (\<lambda>(field, val). quiet (sadd (indexKey table field val) [rowId]))
                         row s3)))))"

subsection \<open>Optimistic transactions\<close>

text \<open>
  \<open>update\<close>, \<open>delete\<close> and \<open>refreshSession\<close> watch their key, read it, and submit the
  write in a transaction, at most \<open>maxRetries\<close> times. \<^verbatim>\<open>EXEC\<close> answers \<^verbatim>\<open>null\<close> when
  another client wrote to the watched key after the \<^verbatim>\<open>WATCH\<close>. The other clients are the
  parameter \<open>writers\<close>, one entry for each attempt in turn: \<open>Some w\<close> when a client writes
  to the watched key during that attempt and leaves the store \<open>w s\<close>, \<open>None\<close> (or no entry)
  when nobody does. \<^verbatim>\<open>EXEC\<close> and \<^verbatim>\<open>UNWATCH\<close> both end the watch. An error thrown inside
  the \<^verbatim>\<open>try\<close> block is caught, the watch released, and the error thrown again.
\<close>

type_synonym interference = "(store \<Rightarrow> store) option list"

definition maxRetries :: nat where
  "maxRetries = 5"

text \<open>
  \<^verbatim>\<open>currentData[field]\<close>, where \<^verbatim>\<open>currentData\<close> is the plain object that \<^verbatim>\<open>hgetall\<close>
  resolves to: the row's own field, or else a member inherited from \<^verbatim>\<open>Object.prototype\<close>
  (a function, or for \<^verbatim>\<open>__proto__\<close> the prototype itself), or \<^verbatim>\<open>undefined\<close>. An inherited
  member is truthy and differs from every string; in a template literal it is its text.
\<close>

datatype js_value = Own string | Inherited string

definition prototype_functions :: "string list" where
  "prototype_functions =
     [''__defineGetter__'', ''__defineSetter__'', ''hasOwnProperty'', ''__lookupGetter__'',
      ''__lookupSetter__'', ''isPrototypeOf'', ''propertyIsEnumerable'', ''toString'',
      ''valueOf'', ''toLocaleString'']"

definition prototype_member :: "string \<Rightarrow> string option" where
  "prototype_member name =
     (if name = ''constructor'' then Some ''function Object() { [native code] }''
      else if name = ''__proto__'' then Some ''[object Object]''
      else if name \<in> set prototype_functions
        then Some (''function '' @ name @ ''() { [native code] }'')
      else None)"

definition js_get :: "Row \<Rightarrow> string \<Rightarrow> js_value option" where
  "js_get obj name =
     (case map_of obj name of
        Some v \<Rightarrow> Some (Own v)
      | None \<Rightarrow> map_option Inherited (prototype_member name))"

definition indexUpdates_of :: "Row \<Rightarrow> Row \<Rightarrow> (string \<times> string \<times> string) list" where
  \<comment> \<open>the loop that fills \<^verbatim>\<open>indexUpdates\<close>; the empty string is falsy in JavaScript\<close>
  "indexUpdates_of currentData updates =
     List.map_filter (\<lambda>(field, newValue).
       case js_get currentData field of
         None \<Rightarrow> None
       | Some (Own oldValue) \<Rightarrow>
           if oldValue \<noteq> [] \<and> oldValue \<noteq> newValue then Some (field, oldValue, newValue)
           else None
       | Some (Inherited text) \<Rightarrow> Some (field, text, newValue)) updates"

fun update_loop ::
  "nat \<Rightarrow> string \<Rightarrow> string \<Rightarrow> Row \<Rightarrow> string \<Rightarrow> interference \<Rightarrow> store \<Rightarrow> (error + bool) \<times> store"
where
  "update_loop 0 table rid updates timestamp writers s = (Inl (MaxRetries ''update row''), s)"
| "update_loop (Suc remaining) table rid updates timestamp writers s =
     (let s1 = watch (rowKey table rid) s in
      if \<not> exists_key (rowKey table rid) s1 then (Inr False, unwatch s1)
      else
        case hgetall_reply (rowKey table rid) s1 of
          Inl e \<Rightarrow> (Inl e, unwatch s1)
        | Inr currentData \<Rightarrow>
        let indexUpdates = indexUpdates_of currentData updates
        in case writers of
             Some w # later \<Rightarrow>
               update_loop remaining table rid updates timestamp later (unwatch (w s1))
           | _ \<Rightarrow>
               let s2 = unwatch (quiet (hmset (rowKey table rid)
                           (obj_set ''_updated_at'' timestamp updates)) s1);
                   s3 = fold (\<lambda>(field, oldValue, newValue) st.
                           quiet (sadd (indexKey table field newValue) [rid])
                             (quiet (srem (indexKey table field oldValue) rid) st))
                         indexUpdates s2
               in (Inr True, s3))"

definition update ::
  "string \<Rightarrow> string \<Rightarrow> Row \<Rightarrow> string \<Rightarrow> interference \<Rightarrow> store \<Rightarrow> (error + bool) \<times> store"
where
  "update table rid updates timestamp writers s =
     update_loop maxRetries table rid updates timestamp writers s"

definition startsWith :: "string \<Rightarrow> string \<Rightarrow> bool" where
  "startsWith str pre = (take (length pre) str = pre)"

fun delete_loop ::
  "nat \<Rightarrow> string \<Rightarrow> string \<Rightarrow> interference \<Rightarrow> store \<Rightarrow> (error + bool) \<times> store"
where
  "delete_loop 0 table rid writers s = (Inl (MaxRetries ''delete row''), s)"
| "delete_loop (Suc remaining) table rid writers s =
     (let s1 = watch (rowKey table rid) s in
      case hgetall_reply (rowKey table rid) s1 of
        Inl e \<Rightarrow> (Inl e, unwatch s1)
      | Inr rowData \<Rightarrow>
      if rowData = [] then (Inr False, unwatch s1)
      else
        case writers of
          Some w # later \<Rightarrow> delete_loop remaining table rid later (unwatch (w s1))
        | _ \<Rightarrow>
            let s2 = unwatch (del_key (rowKey table rid)
                        (quiet (srem (rowsSetKey table) rid) s1));
                s3 = fold (\<lambda>(field, val) st.
                        if \<not> startsWith field ''_''
                        then quiet (srem (indexKey table field val) rid) st
                        else st) rowData s2
            in (Inr True, s3))"

definition delete :: "string \<Rightarrow> string \<Rightarrow> interference \<Rightarrow> store \<Rightarrow> (error + bool) \<times> store" where
  "delete table rid writers s = delete_loop maxRetries table rid writers s"

fun refreshSession_loop ::
  "nat \<Rightarrow> string \<Rightarrow> nat \<Rightarrow> interference \<Rightarrow> store \<Rightarrow> (error + bool) \<times> store"
where
  "refreshSession_loop 0 sessionId expiresInSeconds writers s =
     (Inl (MaxRetries ''refresh session''), s)"
| "refreshSession_loop (Suc remaining) sessionId expiresInSeconds writers s =
     (let s1 = watch (sessionKey sessionId) s in
      case get_reply (sessionKey sessionId) s1 of
        Inl e \<Rightarrow> (Inl e, unwatch s1)
      | Inr None \<Rightarrow> (Inr False, unwatch s1)
      | Inr (Some userId) \<Rightarrow>
          if userId = [] then (Inr False, unwatch s1)
          else
            case writers of
              Some w # later \<Rightarrow>
                refreshSession_loop remaining sessionId expiresInSeconds later (unwatch (w s1))
            | _ \<Rightarrow>
                (Inr True, unwatch (setex (sessionKey sessionId) expiresInSeconds userId s1)))"

definition refreshSession ::
  "string \<Rightarrow> nat \<Rightarrow> interference \<Rightarrow> store \<Rightarrow> (error + bool) \<times> store"
where
  "refreshSession sessionId expiresInSeconds writers s =
     refreshSession_loop maxRetries sessionId expiresInSeconds writers s"

subsection \<open>Queries\<close>

definition getById :: "string \<Rightarrow> string \<Rightarrow> store \<Rightarrow> error + Row option" where
  "getById table rid s =
     (case hgetall_reply (rowKey table rid) s of
        Inl e \<Rightarrow> Inl e
      | Inr rowData \<Rightarrow> if rowData = [] then Inr None else Inr (Some rowData))"

definition countByField :: "string \<Rightarrow> string \<Rightarrow> string \<Rightarrow> store \<Rightarrow> error + nat" where
  "countByField table field val s = scard_reply (indexKey table field val) s"

text \<open>
  \<^verbatim>\<open>applyQueryOptions\<close>. \<^verbatim>\<open>Array.prototype.sort\<close> is stable; it is the insertion sort
  \<open>sort_by\<close> here, which every stable sort agrees with when the comparison is consistent.
  \<^verbatim>\<open>a.data[sortBy]\<close> is the row's own field, a member inherited from \<^verbatim>\<open>Object.prototype\<close>,
  or \<^verbatim>\<open>undefined\<close>. \<^verbatim>\<open><\<close> and \<^verbatim>\<open>>\<close> are both false when a side is \<^verbatim>\<open>undefined\<close>; otherwise
  they compare the two texts code unit by code unit. \<^verbatim>\<open>slice\<close> counts a negative argument
  from the end of the array.
\<close>

datatype sort_order = asc | desc

record QueryOptions =
  q_limit :: "int option"
  q_offset :: "int option"
  sortBy :: "string option"
  sortOrder :: "sort_order option"

fun insort_by :: "('a \<Rightarrow> 'a \<Rightarrow> bool) \<Rightarrow> 'a \<Rightarrow> 'a list \<Rightarrow> 'a list" where
  "insort_by le x [] = [x]"
| "insort_by le x (y # ys) = (if le x y then x # y # ys else y # insort_by le x ys)"

definition sort_by :: "('a \<Rightarrow> 'a \<Rightarrow> bool) \<Rightarrow> 'a list \<Rightarrow> 'a list" where
  "sort_by le xs = foldr (insort_by le) xs []"

definition js_text :: "js_value \<Rightarrow> string" where
  "js_text v = (case v of Own str \<Rightarrow> str | Inherited str \<Rightarrow> str)"

definition js_less :: "js_value option \<Rightarrow> js_value option \<Rightarrow> bool" where
  "js_less a b = (case (a, b) of (Some x, Some y) \<Rightarrow> js_text x < js_text y | _ \<Rightarrow> False)"

definition compareFn ::
  "string \<Rightarrow> sort_order option \<Rightarrow> string \<times> Row \<Rightarrow> string \<times> Row \<Rightarrow> int"
where
  "compareFn field order a b =
     (let aVal = js_get (snd a) field;
          bVal = js_get (snd b) field;
          comparison = (if js_less aVal bVal then - 1 else if js_less bVal aVal then 1 else 0)
      in if order = Some desc then - comparison else comparison)"

definition slice_from :: "int \<Rightarrow> 'a list \<Rightarrow> 'a list" where
  \<comment> \<open>\<^verbatim>\<open>xs.slice(start)\<close>\<close>
  "slice_from start xs =
     (if start < 0 then drop (nat (int (length xs) + start)) xs else drop (nat start) xs)"

definition slice_upto :: "int \<Rightarrow> 'a list \<Rightarrow> 'a list" where
  \<comment> \<open>\<^verbatim>\<open>xs.slice(0, end)\<close>\<close>
  "slice_upto stop xs =
     (if stop < 0 then take (nat (int (length xs) + stop)) xs else take (nat stop) xs)"

definition sort_step :: "QueryOptions \<Rightarrow> (string \<times> Row) list \<Rightarrow> (string \<times> Row) list" where
  \<comment> \<open>\<^verbatim>\<open>if (options.sortBy) result.sort(...)\<close>; the empty string is falsy\<close>
  "sort_step opts result =
     (case sortBy opts of
        None \<Rightarrow> result
      | Some field \<Rightarrow>
          if field \<noteq> []
          then sort_by (\<lambda>a b. compareFn field (sortOrder opts) a b \<le> 0) result
          else result)"

definition offset_step :: "QueryOptions \<Rightarrow> (string \<times> Row) list \<Rightarrow> (string \<times> Row) list" where
  \<comment> \<open>\<^verbatim>\<open>if (options.offset !== undefined) result = result.slice(options.offset)\<close>\<close>
  "offset_step opts result =
     (case q_offset opts of None \<Rightarrow> result | Some off \<Rightarrow> slice_from off result)"

definition limit_step :: "QueryOptions \<Rightarrow> (string \<times> Row) list \<Rightarrow> (string \<times> Row) list" where
  \<comment> \<open>\<^verbatim>\<open>if (options.limit !== undefined) result = result.slice(0, options.limit)\<close>\<close>
  "limit_step opts result =
     (case q_limit opts of None \<Rightarrow> result | Some cnt \<Rightarrow> slice_upto cnt result)"

definition applyQueryOptions ::
  "(string \<times> Row) list \<Rightarrow> QueryOptions option \<Rightarrow> (string \<times> Row) list"
where
  "applyQueryOptions rows options =
     (case options of
        None \<Rightarrow> rows
      | Some opts \<Rightarrow> limit_step opts (offset_step opts (sort_step opts rows)))"

fun fetch_rows :: "string \<Rightarrow> string list \<Rightarrow> store \<Rightarrow> error + (string \<times> Row) list" where
  \<comment> \<open>the loop \<^verbatim>\<open>for (const rowId of rowIds)\<close>, one awaited \<^verbatim>\<open>hgetall\<close> for each id\<close>
  "fetch_rows table [] s = Inr []"
| "fetch_rows table (rowId # rowIds) s =
     (case hgetall_reply (rowKey table rowId) s of
        Inl e \<Rightarrow> Inl e
      | Inr rowData \<Rightarrow>
          (case fetch_rows table rowIds s of
             Inl e \<Rightarrow> Inl e
           | Inr rows \<Rightarrow> Inr ((rowId, rowData) # rows)))"

definition getAll ::
  "string \<Rightarrow> QueryOptions option \<Rightarrow> store \<Rightarrow> error + (string \<times> Row) list"
where
  "getAll table options s =
     (case smembers_reply (rowsSetKey table) s of
        Inl e \<Rightarrow> Inl e
      | Inr rowIds \<Rightarrow>
          (case fetch_rows table rowIds s of
             Inl e \<Rightarrow> Inl e
           | Inr rows \<Rightarrow> Inr (applyQueryOptions rows options)))"

definition findByField ::
  "string \<Rightarrow> string \<Rightarrow> string \<Rightarrow> QueryOptions option \<Rightarrow> store
     \<Rightarrow> error + (string \<times> Row) list"
where
  "findByField table field val options s =
     (case smembers_reply (indexKey table field val) s of
        Inl e \<Rightarrow> Inl e
      | Inr rowIds \<Rightarrow>
          (case fetch_rows table rowIds s of
             Inl e \<Rightarrow> Inl e
           | Inr rows \<Rightarrow> Inr (applyQueryOptions rows options)))"

subsection \<open>Sorted sets\<close>

text \<open>
  \<^verbatim>\<open>ZRANGEBYSCORE key min max [WITHSCORES] [LIMIT offset count]\<close> as Redis documents it:
  the entries inside the inclusive score range, by ascending score and, among equal scores,
  by member; \<^verbatim>\<open>LIMIT\<close> skips \<open>offset\<close> of them and keeps \<open>count\<close>. A bound is a number or
  one of the strings \<^verbatim>\<open>'-inf'\<close> and \<^verbatim>\<open>'+inf'\<close>; offsets and counts are natural numbers.
  With \<^verbatim>\<open>WITHSCORES\<close> the reply alternates members and scores. A key that holds nothing
  is an empty sorted set; a key that holds another type is answered \<^verbatim>\<open>WRONGTYPE\<close>.
\<close>

datatype bound = NegInf | PosInf | Num real

datatype zitem = Member string | Score real

record RangeOptions =
  range_limit :: "nat option"
  range_offset :: "nat option"
  withScores :: bool

definition in_range :: "bound \<Rightarrow> bound \<Rightarrow> real \<Rightarrow> bool" where
  "in_range lo hi sc =
     ((case lo of NegInf \<Rightarrow> True | PosInf \<Rightarrow> False | Num l \<Rightarrow> l \<le> sc)
      \<and> (case hi of NegInf \<Rightarrow> False | PosInf \<Rightarrow> True | Num h \<Rightarrow> sc \<le> h))"

definition zset_le :: "string \<times> real \<Rightarrow> string \<times> real \<Rightarrow> bool" where
  "zset_le a b = (snd a < snd b \<or> (snd a = snd b \<and> fst a \<le> fst b))"

definition zrangebyscore ::
  "string \<Rightarrow> bound \<Rightarrow> bound \<Rightarrow> (nat \<times> nat) option \<Rightarrow> store \<Rightarrow> (string \<times> real) list"
where
  "zrangebyscore key lo hi page s =
     (let matches = filter (\<lambda>e. in_range lo hi (snd e)) (sort_by zset_le (r_zsets s key))
      in case page of None \<Rightarrow> matches | Some (off, cnt) \<Rightarrow> take cnt (drop off matches))"

definition sorted_set_key :: "string \<Rightarrow> store \<Rightarrow> bool" where
  "sorted_set_key key s =
     (case r_keys s key of None \<Rightarrow> True | Some (RZSet entries) \<Rightarrow> True | Some _ \<Rightarrow> False)"

definition zrangebyscore_reply ::
  "string \<Rightarrow> bound \<Rightarrow> bound \<Rightarrow> (nat \<times> nat) option \<Rightarrow> store
     \<Rightarrow> error + (string \<times> real) list"
where
  "zrangebyscore_reply key lo hi page s =
     (if sorted_set_key key s then Inr (zrangebyscore key lo hi page s) else Inl WrongType)"

definition withscores_reply :: "(string \<times> real) list \<Rightarrow> zitem list" where
  "withscores_reply entries = concat (map (\<lambda>(m, sc). [Member m, Score sc]) entries)"

fun formatted :: "zitem list \<Rightarrow> (string \<times> real) list" where
  \<comment> \<open>the loop \<^verbatim>\<open>for (i = 0; i < results.length; i += 2)\<close>\<close>
  "formatted (Member m # Score sc # rest) = (m, sc) # formatted rest"
| "formatted _ = []"

definition getSortedSetByScore ::
  "string \<Rightarrow> bound \<Rightarrow> bound \<Rightarrow> RangeOptions option \<Rightarrow> store
     \<Rightarrow> error + (string list + (string \<times> real) list)"
where
  "getSortedSetByScore key lo hi options s =
     (let withS = (case options of None \<Rightarrow> False | Some opts \<Rightarrow> withScores opts);
          page = (case options of
                    None \<Rightarrow> None
                  | Some opts \<Rightarrow>
                      (case (range_offset opts, range_limit opts) of
                         (Some off, Some cnt) \<Rightarrow> Some (off, cnt)
                       | _ \<Rightarrow> None))
      in case zrangebyscore_reply key lo hi page s of
           Inl e \<Rightarrow> Inl e
         | Inr results \<Rightarrow>
             Inr (if withS then Inr (formatted (withscores_reply results))
                  else Inl (map fst results)))"

subsection \<open>Runs in which every attempt is aborted\<close>

text \<open>
  \<open>all_aborted n present key writers s\<close>: starting in \<open>s\<close>, each of the next \<open>n\<close> attempts
  finds its target (\<open>present\<close>) and then loses its transaction to a concurrent write to
  the watched \<open>key\<close>.
\<close>

fun all_aborted ::
  "nat \<Rightarrow> (store \<Rightarrow> bool) \<Rightarrow> string \<Rightarrow> interference \<Rightarrow> store \<Rightarrow> bool"
where
  "all_aborted 0 present key writers s = True"
| "all_aborted (Suc n) present key writers s =
     (case writers of
        Some w # later \<Rightarrow>
          present (watch key s) \<and> all_aborted n present key later (unwatch (w (watch key s)))
      | _ \<Rightarrow> False)"

definition row_present :: "string \<Rightarrow> string \<Rightarrow> store \<Rightarrow> bool" where
  "row_present table rid s = (r_hashes s (rowKey table rid) \<noteq> [])"

definition session_present :: "string \<Rightarrow> store \<Rightarrow> bool" where
  "session_present sessionId s =
     (case r_strings s (sessionKey sessionId) of None \<Rightarrow> False | Some userId \<Rightarrow> userId \<noteq> [])"

subsection \<open>Sequences of calls\<close>

text \<open>
  A client that calls \<open>createTable\<close>, \<open>insert\<close>, \<open>update\<close> and \<open>delete\<close> one after the
  other, with no other client writing in between; \<open>minted_ids number_text table calls s\<close>
  lists, in order, the ids that the successful inserts into \<open>table\<close> return.
  \<open>counter_start table s\<close> is the number that the next \<^verbatim>\<open>INCR\<close> of the table's counter
  counts on from: the integer stored under the counter's key, and 0 when there is none.
\<close>

datatype call =
    CreateTable string "string list"
  | Insert string Row string
  | Update string string Row string
  | Delete string string

fun minted_ids :: "(int \<Rightarrow> string) \<Rightarrow> string \<Rightarrow> call list \<Rightarrow> store \<Rightarrow> string list" where
  "minted_ids number_text table [] s = []"
| "minted_ids number_text table (CreateTable t fieldNames # calls) s =
     minted_ids number_text table calls (snd (createTable t fieldNames s))"
| "minted_ids number_text table (Insert t row timestamp # calls) s =
     (case insert_row number_text t row timestamp s of
        (Inr rowId, s') \<Rightarrow>
          (if t = table then [rowId] else []) @ minted_ids number_text table calls s'
      | (Inl e, s') \<Rightarrow> minted_ids number_text table calls s')"
| "minted_ids number_text table (Update t rid updates timestamp # calls) s =
     minted_ids number_text table calls (snd (update t rid updates timestamp [] s))"
| "minted_ids number_text table (Delete t rid # calls) s =
     minted_ids number_text table calls (snd (delete t rid [] s))"

definition counter_start :: "string \<Rightarrow> store \<Rightarrow> int" where
  "counter_start table s =
     (case r_strings s (nextIdKey table) of
        None \<Rightarrow> 0
      | Some v \<Rightarrow> (case parseInteger64 v of None \<Rightarrow> 0 | Some c \<Rightarrow> c))"

subsection \<open>Example stores\<close>

text \<open>No example comes near the integers that a double cannot hold, so any \<open>number_text\<close>
  does; \<open>unrounded\<close> is the decimal numeral.\<close>

definition unrounded :: "int \<Rightarrow> string" where
  "unrounded n = toString n"

definition table_t :: store where
  "table_t = snd (createTable ''t'' [''a''] empty_store)"

definition one_row :: store where
  "one_row = snd (insert_row unrounded ''t'' [(''a'', ''x'')] ''100'' table_t)"

definition with_session :: store where
  "with_session = setex (sessionKey ''s1'') 60 ''u1'' one_row"

definition five_writers :: interference where
  "five_writers = replicate 5 (Some (\<lambda>s. s))"

definition blank_row :: store where
  "blank_row = snd (insert_row unrounded ''t'' [(''a'', '''')] ''100'' table_t)"

definition recycled :: store where
  "recycled = initNextId ''t'' (snd (update ''t'' ''1'' [(''b'', ''q'')] ''200'' [] one_row))"

definition underscore_row :: store where
  "underscore_row =
     snd (insert_row unrounded ''p'' [(''_x'', ''v'')] ''100''
       (snd (createTable ''p'' [''_x''] empty_store)))"

definition scores :: store where
  "scores = put ''board'' (RZSet [(''c'', 30), (''a'', 10), (''d'', 40), (''b'', 20)]) empty_store"

definition numerals :: store where
  "numerals =
     snd (insert_row unrounded ''n'' [(''k'', ''10'')] ''100''
       (snd (insert_row unrounded ''n'' [(''k'', ''9'')] ''100''
         (snd (createTable ''n'' [''k''] empty_store)))))"

definition blank_field :: store where
  "blank_field =
     snd (insert_row unrounded ''u'' [('''', ''a'')] ''100''
       (snd (insert_row unrounded ''u'' [('''', ''b'')] ''100''
         (snd (createTable ''u'' [''''] empty_store)))))"

definition session_row :: store where
  "session_row =
     snd (insert_row unrounded ''session'' [(''a'', ''x'')] ''100''
       (snd (createTable ''session'' [''a''] empty_store)))"

section \<open>Evaluating the model\<close>

lemmas model_defs =
  empty_store_def r_strings_def r_hashes_def r_sets_def r_zsets_def
  schemaKey_def rowsSetKey_def nextIdKey_def rowKey_def indexKey_def sessionKey_def
  smembers_def scard_def hgetall_def redis_get_def exists_key_def smembers_reply_def
  hgetall_reply_def get_reply_def scard_reply_def sorted_set_key_def
  zrangebyscore_reply_def put_def del_key_def add_members_def sadd_def srem_def
  hmset_def redis_set_def setex_def incr_def quiet_def watch_def unwatch_def createTable_def
  initNextId_def obj_set_def insert_row_def maxRetries_def prototype_functions_def
  prototype_member_def js_get_def indexUpdates_of_def update_def startsWith_def delete_def
  refreshSession_def getById_def countByField_def parseInteger_def parseInteger64_def
  reply_id_def toString_def read_int_def read_nat_def digit_char_def digit_val_def
  List.map_filter_def Let_def show_nat.simps row_present_def session_present_def

lemmas example_defs =
  unrounded_def table_t_def one_row_def with_session_def five_writers_def blank_row_def
  recycled_def underscore_row_def scores_def numerals_def blank_field_def session_row_def

section \<open>Decimal numerals round-trip\<close>

lemma digit_val_digit_char: "d < 10 \<Longrightarrow> digit_val (digit_char d) = d"
proof -
  assume "d < 10"
  then have "d \<in> {0, 1, 2, 3, 4, 5, 6, 7, 8, 9}" by auto
  then show ?thesis
    by (auto simp: digit_val_def digit_char_def)
qed

lemma digit_char_not_minus: "d < 10 \<Longrightarrow> digit_char d \<noteq> CHR ''-''"
proof -
  assume "d < 10"
  then have "d \<in> {0, 1, 2, 3, 4, 5, 6, 7, 8, 9}" by auto
  then show ?thesis
    by (auto simp: digit_char_def)
qed

lemma read_nat_snoc: "read_nat (ds @ [c]) = 10 * read_nat ds + digit_val c"
  by (simp add: read_nat_def)

lemma read_nat_show_nat: "read_nat (show_nat n) = n"
proof (induction n rule: show_nat.induct)
  case (1 n)
  show ?case
  proof (cases "n < 10")
    case True
    then show ?thesis
      by (subst show_nat.simps) (simp add: read_nat_def digit_val_digit_char)
  next
    case False
    with 1 have "read_nat (show_nat (n div 10)) = n div 10" by simp
    with False show ?thesis
      by (subst show_nat.simps) (simp add: read_nat_snoc digit_val_digit_char)
  qed
qed

lemma show_nat_head: "\<exists>c cs. show_nat n = c # cs \<and> c \<noteq> CHR ''-''"
proof (induction n rule: show_nat.induct)
  case (1 n)
  show ?case
  proof (cases "n < 10")
    case True
    then show ?thesis
      by (subst show_nat.simps) (simp add: digit_char_not_minus)
  next
    case False
    with 1 obtain c cs where "show_nat (n div 10) = c # cs" "c \<noteq> CHR ''-''" by auto
    with False show ?thesis
      by (subst show_nat.simps) simp
  qed
qed

lemma read_int_toString: "read_int (toString i) = i"
proof (cases "i < 0")
  case True
  then show ?thesis
    by (simp add: toString_def read_int_def read_nat_show_nat)
next
  case False
  obtain c cs where sh: "show_nat (nat i) = c # cs" "c \<noteq> CHR ''-''"
    using show_nat_head by blast
  have "read_nat (c # cs) = nat i"
    using read_nat_show_nat [of "nat i"] sh by simp
  with False sh show ?thesis
    by (simp add: toString_def read_int_def)
qed

lemma parseInteger_toString: "parseInteger (toString i) = Some i"
  by (simp add: parseInteger_def read_int_toString)

lemma parseInteger_Some: "parseInteger v = Some i \<Longrightarrow> v = toString i"
  by (auto simp: parseInteger_def Let_def split: if_splits)

section \<open>What the commands leave alone\<close>

text \<open>A write to a key as one type changes nothing that is read as another type.\<close>

lemma set_present:
  "r_sets s key \<noteq> [] \<Longrightarrow> exists_key key s \<and> smembers_reply key s = Inr (smembers key s)"
  by (auto simp: r_sets_def exists_key_def smembers_reply_def split: option.splits rvalue.splits)

lemma hash_present:
  "r_hashes s key \<noteq> [] \<Longrightarrow> exists_key key s \<and> hgetall_reply key s = Inr (r_hashes s key)"
  by (auto simp: r_hashes_def exists_key_def hgetall_reply_def hgetall_def
      split: option.splits rvalue.splits)

lemma string_present:
  "r_strings s key = Some v \<Longrightarrow> get_reply key s = Inr (Some v)"
  by (auto simp: r_strings_def get_reply_def redis_get_def split: option.splits rvalue.splits)

lemma watch_frame [simp]:
  "r_keys (watch key s) = r_keys s" "r_hashes (watch key s) = r_hashes s"
  "r_strings (watch key s) = r_strings s" "r_sets (watch key s) = r_sets s"
  by (simp_all add: watch_def r_hashes_def r_strings_def r_sets_def fun_eq_iff)

lemma watch_replies [simp]:
  "exists_key key (watch k s) = exists_key key s"
  "hgetall_reply key (watch k s) = hgetall_reply key s"
  "get_reply key (watch k s) = get_reply key s"
  by (auto simp: exists_key_def hgetall_reply_def get_reply_def hgetall_def redis_get_def
      split: option.splits rvalue.splits)

lemma unwatch_watch [simp]: "unwatch (watch key s) = s\<lparr>r_watched := []\<rparr>"
  by (simp add: unwatch_def watch_def)

lemma unwatch_frame [simp]:
  "r_keys (unwatch s) = r_keys s" "r_hashes (unwatch s) = r_hashes s"
  "r_strings (unwatch s) = r_strings s" "r_sets (unwatch s) = r_sets s"
  by (simp_all add: unwatch_def r_hashes_def r_strings_def r_sets_def fun_eq_iff)

lemma read_None:
  "r_keys s key = None \<Longrightarrow>
     r_hashes s key = [] \<and> r_strings s key = None \<and> r_sets s key = []"
  by (simp add: r_hashes_def r_strings_def r_sets_def)

lemma read_RString:
  "r_keys s key = Some (RString v) \<Longrightarrow>
     r_hashes s key = [] \<and> r_strings s key = Some v \<and> r_sets s key = []"
  by (simp add: r_hashes_def r_strings_def r_sets_def)

lemma read_RHash:
  "r_keys s key = Some (RHash h) \<Longrightarrow>
     r_hashes s key = h \<and> r_strings s key = None \<and> r_sets s key = []"
  by (simp add: r_hashes_def r_strings_def r_sets_def)

lemma read_RSet:
  "r_keys s key = Some (RSet xs) \<Longrightarrow>
     r_hashes s key = [] \<and> r_strings s key = None \<and> r_sets s key = xs"
  by (simp add: r_hashes_def r_strings_def r_sets_def)

lemma read_RZSet:
  "r_keys s key = Some (RZSet es) \<Longrightarrow>
     r_hashes s key = [] \<and> r_strings s key = None \<and> r_sets s key = []"
  by (simp add: r_hashes_def r_strings_def r_sets_def)

lemmas read_as = read_None read_RString read_RHash read_RSet read_RZSet

lemma read_put:
  "r_hashes (put key val s) k
     = (if k = key then (case val of RHash h \<Rightarrow> h | _ \<Rightarrow> []) else r_hashes s k)"
  "r_strings (put key val s) k
     = (if k = key then (case val of RString v \<Rightarrow> Some v | _ \<Rightarrow> None) else r_strings s k)"
  "r_sets (put key val s) k
     = (if k = key then (case val of RSet xs \<Rightarrow> xs | _ \<Rightarrow> []) else r_sets s k)"
  by (simp_all add: put_def r_hashes_def r_strings_def r_sets_def)

lemma read_del_key:
  "r_hashes (del_key key s) k = (if k = key then [] else r_hashes s k)"
  "r_strings (del_key key s) k = (if k = key then None else r_strings s k)"
  "r_sets (del_key key s) k = (if k = key then [] else r_sets s k)"
  by (simp_all add: del_key_def r_hashes_def r_strings_def r_sets_def)

lemma sadd_frame:
  assumes "sadd key members s = Inr s'"
  shows "r_hashes s' = r_hashes s \<and> r_strings s' = r_strings s"
proof (cases "r_keys s key")
  case None
  with assms read_None [OF None] show ?thesis
    by (auto simp: sadd_def read_put fun_eq_iff)
next
  case (Some val)
  with assms show ?thesis
    by (cases val) (auto simp: sadd_def read_put fun_eq_iff dest: read_RSet)
qed

lemma quiet_sadd_frame [simp]:
  "r_hashes (quiet (sadd key members) s) = r_hashes s"
  "r_strings (quiet (sadd key members) s) = r_strings s"
  using sadd_frame [of key members s] by (auto simp: quiet_def split: sum.splits)

lemma srem_frame:
  assumes "srem key member s = Inr s'"
  shows "r_hashes s' = r_hashes s \<and> r_strings s' = r_strings s"
proof (cases "r_keys s key")
  case None
  with assms show ?thesis by (simp add: srem_def)
next
  case (Some val)
  with assms show ?thesis
    by (cases val)
      (auto simp: srem_def read_put read_del_key fun_eq_iff dest: read_RSet split: if_splits)
qed

lemma quiet_srem_frame [simp]:
  "r_hashes (quiet (srem key member) s) = r_hashes s"
  "r_strings (quiet (srem key member) s) = r_strings s"
  using srem_frame [of key member s] by (auto simp: quiet_def split: sum.splits)

lemma hmset_frame:
  assumes "hmset key obj s = Inr s'"
  shows "r_strings s' = r_strings s \<and> r_sets s' = r_sets s"
proof (cases "r_keys s key")
  case None
  with assms read_None [OF None] show ?thesis
    by (auto simp: hmset_def read_put fun_eq_iff)
next
  case (Some val)
  with assms show ?thesis
    by (cases val) (auto simp: hmset_def read_put fun_eq_iff dest: read_RHash)
qed

lemma quiet_hmset_frame [simp]:
  "r_strings (quiet (hmset key obj) s) = r_strings s"
  "r_sets (quiet (hmset key obj) s) = r_sets s"
  using hmset_frame [of key obj s] by (auto simp: quiet_def split: sum.splits)

lemma incr_frame:
  assumes "incr key s = Inr (n, s1)"
  shows "r_hashes s1 = r_hashes s"
proof (cases "r_keys s key")
  case None
  with assms read_None [OF None] show ?thesis
    by (auto simp: incr_def read_put fun_eq_iff)
next
  case (Some val)
  with assms show ?thesis
    by (cases val)
      (auto simp: incr_def read_put fun_eq_iff dest: read_RString split: option.splits if_splits)
qed

lemma del_hash_strings:
  "r_strings s key = None \<Longrightarrow> r_strings (del_key key s) = r_strings s"
  by (auto simp: read_del_key fun_eq_iff)

lemma fold_sadd_frame:
  "r_hashes (fold (\<lambda>(field, val). quiet (sadd (key field val) members)) row s) = r_hashes s
   \<and> r_strings (fold (\<lambda>(field, val). quiet (sadd (key field val) members)) row s)
       = r_strings s"
  by (induction row arbitrary: s) (auto simp: case_prod_beta)

lemma fold_move_strings:
  "r_strings (fold (\<lambda>(field, oldValue, newValue) st.
          quiet (sadd (indexKey t field newValue) [rid])
            (quiet (srem (indexKey t field oldValue) rid) st)) ius st)
     = r_strings st"
  by (induction ius arbitrary: st) (auto simp: case_prod_beta)

lemma fold_srem_strings:
  "r_strings (fold (\<lambda>(field, val) st.
                if \<not> startsWith field ''_'' then quiet (srem (indexKey t field val) rid) st
                else st) rowData st) = r_strings st"
  by (induction rowData arbitrary: st) (auto simp: case_prod_beta)

lemma fold_srem_hashes:
  "r_hashes (fold (\<lambda>(field, val) st.
                if \<not> startsWith field ''_'' then quiet (srem (indexKey table field val) rid) st
                else st) rowData st) = r_hashes st"
  by (induction rowData arbitrary: st) (auto simp: case_prod_beta)

lemma insert_row_success:
  assumes "insert_row number_text table row timestamp s = (Inr rid, s')"
  shows "\<exists>n s1 s2 s3. incr (nextIdKey table) s = Inr (n, s1) \<and> rid = reply_id number_text n
     \<and> hmset (rowKey table rid)
          (obj_set ''_updated_at'' timestamp (obj_set ''_created_at'' timestamp row)) s1
        = Inr s2
     \<and> sadd (rowsSetKey table) [rid] s2 = Inr s3
     \<and> s' = fold (\<lambda>(field, val). quiet (sadd (indexKey table field val) [rid])) row s3"
  using assms
  by (auto simp: insert_row_def Let_def split: if_splits option.splits sum.splits prod.splits)

lemma find_None_all: "find P xs = None \<longleftrightarrow> (\<forall>x \<in> set xs. \<not> P x)"
  by (induction xs) auto

lemma find_Some_holds: "find P xs = Some x \<Longrightarrow> x \<in> set xs \<and> P x"
  by (induction xs) (auto split: if_splits)

section \<open>Sorting and slicing\<close>

lemma set_insort_by: "set (insort_by le x xs) = insert x (set xs)"
  by (induction xs) auto

lemma set_sort_by: "set (sort_by le xs) = set xs"
  by (induction xs) (simp_all add: sort_by_def set_insort_by)

lemma mset_insort_by: "mset (insort_by le x xs) = add_mset x (mset xs)"
  by (induction xs) auto

lemma mset_sort_by: "mset (sort_by le xs) = mset xs"
  by (induction xs) (simp_all add: sort_by_def mset_insort_by)

lemma sorted_insort_by:
  assumes tot: "\<forall>a \<in> A. \<forall>b \<in> A. le a b \<or> le b a"
    and tr: "\<forall>a \<in> A. \<forall>b \<in> A. \<forall>c \<in> A. le a b \<longrightarrow> le b c \<longrightarrow> le a c"
    and "x \<in> A" and "set ys \<subseteq> A" and "sorted_wrt le ys"
  shows "sorted_wrt le (insort_by le x ys)"
  using assms(3-)
proof (induction ys)
  case Nil
  then show ?case by simp
next
  case (Cons y ys)
  show ?case
  proof (cases "le x y")
    case True
    have "\<forall>z \<in> set ys. le x z"
    proof
      fix z assume z: "z \<in> set ys"
      with Cons.prems have "le y z" "z \<in> A" "y \<in> A" by auto
      with True tr Cons.prems(1) show "le x z" by blast
    qed
    with True Cons.prems show ?thesis by simp
  next
    case False
    with tot Cons.prems have yx: "le y x" by auto
    from Cons have "sorted_wrt le (insort_by le x ys)" by simp
    moreover have "\<forall>z \<in> set (insort_by le x ys). le y z"
      using yx Cons.prems by (auto simp: set_insort_by)
    ultimately show ?thesis using False by simp
  qed
qed

lemma sorted_sort_by:
  assumes tot: "\<forall>a \<in> A. \<forall>b \<in> A. le a b \<or> le b a"
    and tr: "\<forall>a \<in> A. \<forall>b \<in> A. \<forall>c \<in> A. le a b \<longrightarrow> le b c \<longrightarrow> le a c"
    and "set xs \<subseteq> A"
  shows "sorted_wrt le (sort_by le xs)"
  using assms(3)
proof (induction xs)
  case Nil
  then show ?case by (simp add: sort_by_def)
next
  case (Cons x xs)
  then have "sorted_wrt le (sort_by le xs)" "x \<in> A" "set (sort_by le xs) \<subseteq> A"
    by (simp_all add: set_sort_by)
  with sorted_insort_by [OF tot tr] show ?case
    by (simp add: sort_by_def)
qed

lemma set_slice_from: "set (slice_from start xs) \<subseteq> set xs"
  by (auto simp: slice_from_def dest: in_set_dropD)

lemma set_slice_upto: "set (slice_upto stop xs) \<subseteq> set xs"
  by (auto simp: slice_upto_def dest: in_set_takeD)

lemma set_applyQueryOptions: "set (applyQueryOptions rows options) \<subseteq> set rows"
proof (cases options)
  case None
  then show ?thesis by (simp add: applyQueryOptions_def)
next
  case (Some opts)
  have a: "set (sort_step opts rows) \<subseteq> set rows"
    by (simp add: sort_step_def set_sort_by split: option.splits)
  have b: "\<And>xs. set (offset_step opts xs) \<subseteq> set xs"
    by (simp add: offset_step_def set_slice_from split: option.splits)
  have c: "\<And>xs. set (limit_step opts xs) \<subseteq> set xs"
    by (simp add: limit_step_def set_slice_upto split: option.splits)
  from Some a b c show ?thesis
    by (simp add: applyQueryOptions_def) (meson subset_trans)
qed

lemma slice_nonneg: "slice_from (int k) xs = drop k xs" "slice_upto (int k) xs = take k xs"
  by (simp_all add: slice_from_def slice_upto_def)


section \<open>Fetching rows\<close>

lemma smembers_reply_Inr: "smembers_reply key s = Inr rowIds \<Longrightarrow> rowIds = smembers key s"
  by (auto simp: smembers_reply_def smembers_def r_sets_def split: option.splits rvalue.splits)

lemma hgetall_reply_Inr: "hgetall_reply key s = Inr rowData \<Longrightarrow> rowData = hgetall key s"
  by (auto simp: hgetall_reply_def hgetall_def r_hashes_def split: option.splits rvalue.splits)

lemma fetch_rows_Inr:
  "fetch_rows table rowIds s = Inr rows \<Longrightarrow>
     rows = map (\<lambda>rowId. (rowId, hgetall (rowKey table rowId) s)) rowIds"
  by (induction rowIds arbitrary: rows) (auto split: sum.splits dest: hgetall_reply_Inr)

lemma getAll_Inr:
  assumes "getAll table options s = Inr result"
  shows "\<exists>rows. getAll table None s = Inr rows \<and> result = applyQueryOptions rows options
     \<and> rows = map (\<lambda>rowId. (rowId, hgetall (rowKey table rowId) s))
                (smembers (rowsSetKey table) s)"
proof -
  from assms obtain rowIds rows where r: "smembers_reply (rowsSetKey table) s = Inr rowIds"
    "fetch_rows table rowIds s = Inr rows" "result = applyQueryOptions rows options"
    by (auto simp: getAll_def split: sum.splits)
  from r(1,2) have "getAll table None s = Inr rows"
    by (simp add: getAll_def applyQueryOptions_def)
  with r(3) fetch_rows_Inr [OF r(2)] smembers_reply_Inr [OF r(1)] show ?thesis by simp
qed

lemma findByField_Inr:
  assumes "findByField table field val options s = Inr result"
  shows "\<exists>rows. findByField table field val None s = Inr rows
     \<and> result = applyQueryOptions rows options
     \<and> rows = map (\<lambda>rowId. (rowId, hgetall (rowKey table rowId) s))
                (smembers (indexKey table field val) s)"
proof -
  from assms obtain rowIds rows where
    r: "smembers_reply (indexKey table field val) s = Inr rowIds"
    "fetch_rows table rowIds s = Inr rows" "result = applyQueryOptions rows options"
    by (auto simp: findByField_def split: sum.splits)
  from r(1,2) have "findByField table field val None s = Inr rows"
    by (simp add: findByField_def applyQueryOptions_def)
  with r(3) fetch_rows_Inr [OF r(2)] smembers_reply_Inr [OF r(1)] show ?thesis by simp
qed

lemma getAll_options:
  "getAll table options s =
     (case getAll table None s of
        Inl e \<Rightarrow> Inl e
      | Inr rows \<Rightarrow> Inr (applyQueryOptions rows options))"
  by (simp add: getAll_def applyQueryOptions_def split: sum.splits)

lemma findByField_options:
  "findByField table field val options s =
     (case findByField table field val None s of
        Inl e \<Rightarrow> Inl e
      | Inr rows \<Rightarrow> Inr (applyQueryOptions rows options))"
  by (simp add: findByField_def applyQueryOptions_def split: sum.splits)

section \<open>Validation failures of insert\<close>

text \<open>
  C3. When the table has a schema and the keys of the record are not exactly the fields
  of the schema, \<open>insert\<close> fails with an error that names a field: one that the record
  lacks, or one that the schema does not have. The store it leaves is the store it found:
  no counter is incremented, no hash, membership set or index is written.
\<close>

theorem insert_field_mismatch_fails:
  assumes "r_sets s (schemaKey table) \<noteq> []"
    and "set (map fst row) \<noteq> set (smembers (schemaKey table) s)"
  shows "\<exists>field.
           (insert_row number_text table row timestamp s = (Inl (MissingField field table), s)
              \<and> field \<in> set (smembers (schemaKey table) s) \<and> field \<notin> set (map fst row))
         \<or> (insert_row number_text table row timestamp s = (Inl (ExtraField field table), s)
              \<and> field \<in> set (map fst row) \<and> field \<notin> set (smembers (schemaKey table) s))"
proof (cases "find (\<lambda>field. field \<notin> set (map fst row)) (smembers (schemaKey table) s)")
  case (Some field)
  from find_Some_holds [OF Some] Some set_present [OF assms(1)] show ?thesis
    by (auto simp: insert_row_def Let_def)
next
  case None
  then have sub: "set (smembers (schemaKey table) s) \<subseteq> set (map fst row)"
    by (auto simp: find_None_all)
  show ?thesis
  proof (cases "find (\<lambda>field. field \<notin> set (smembers (schemaKey table) s)) (map fst row)")
    case (Some field)
    from find_Some_holds [OF Some] Some None set_present [OF assms(1)] show ?thesis
      by (auto simp: insert_row_def Let_def)
  next
    case None2: None
    then have "set (map fst row) \<subseteq> set (smembers (schemaKey table) s)"
      by (auto simp: find_None_all)
    with sub assms(2) show ?thesis by blast
  qed
qed

theorem insert_field_mismatch_fails_witness:
  "insert_row unrounded ''t'' [(''b'', ''x'')] ''100'' table_t
     = (Inl (MissingField ''a'' ''t''), table_t)"
proof -
  have h1: "r_sets table_t (schemaKey ''t'') \<noteq> []"
    by (simp add: model_defs example_defs)
  have h2: "set (map fst [(''b'', ''x'')]) \<noteq> set (smembers (schemaKey ''t'') table_t)"
    by (simp add: model_defs example_defs)
  from insert_field_mismatch_fails [OF h1 h2, of unrounded "''100''"] show ?thesis
    by (simp add: model_defs example_defs)
qed

section \<open>The retry loops\<close>

lemma update_loop_exhausted:
  "all_aborted n (row_present table rid) (rowKey table rid) writers s
     \<Longrightarrow> fst (update_loop n table rid updates timestamp writers s) = Inl (MaxRetries ''update row'')"
proof (induction n arbitrary: writers s)
  case 0
  then show ?case by simp
next
  case (Suc n)
  from Suc.prems obtain w later where w: "writers = Some w # later"
    and p: "row_present table rid (watch (rowKey table rid) s)"
    and rest: "all_aborted n (row_present table rid) (rowKey table rid) later
                 (unwatch (w (watch (rowKey table rid) s)))"
    by (auto split: list.splits option.splits)
  from p have "r_hashes (watch (rowKey table rid) s) (rowKey table rid) \<noteq> []"
    by (simp add: row_present_def)
  from hash_present [OF this] w Suc.IH [OF rest] show ?case
    by (simp add: Let_def)
qed

lemma delete_loop_exhausted:
  "all_aborted n (row_present table rid) (rowKey table rid) writers s
     \<Longrightarrow> fst (delete_loop n table rid writers s) = Inl (MaxRetries ''delete row'')"
proof (induction n arbitrary: writers s)
  case 0
  then show ?case by simp
next
  case (Suc n)
  from Suc.prems obtain w later where w: "writers = Some w # later"
    and p: "row_present table rid (watch (rowKey table rid) s)"
    and rest: "all_aborted n (row_present table rid) (rowKey table rid) later
                 (unwatch (w (watch (rowKey table rid) s)))"
    by (auto split: list.splits option.splits)
  from p have ne: "r_hashes (watch (rowKey table rid) s) (rowKey table rid) \<noteq> []"
    by (simp add: row_present_def)
  from hash_present [OF ne] ne w Suc.IH [OF rest] show ?case
    by (simp add: Let_def)
qed

lemma refreshSession_loop_exhausted:
  "all_aborted n (session_present sessionId) (sessionKey sessionId) writers s
     \<Longrightarrow> fst (refreshSession_loop n sessionId ttl writers s) = Inl (MaxRetries ''refresh session'')"
proof (induction n arbitrary: writers s)
  case 0
  then show ?case by simp
next
  case (Suc n)
  from Suc.prems obtain w later where w: "writers = Some w # later"
    and p: "session_present sessionId (watch (sessionKey sessionId) s)"
    and rest: "all_aborted n (session_present sessionId) (sessionKey sessionId) later
                 (unwatch (w (watch (sessionKey sessionId) s)))"
    by (auto split: list.splits option.splits)
  from p obtain userId where
    u: "r_strings (watch (sessionKey sessionId) s) (sessionKey sessionId) = Some userId"
      "userId \<noteq> []"
    by (auto simp: session_present_def split: option.splits)
  from string_present [OF u(1)] u(2) w Suc.IH [OF rest] show ?case
    by (simp add: Let_def)
qed

lemma update_loop_take:
  "update_loop n table rid updates timestamp (take n writers) s
     = update_loop n table rid updates timestamp writers s"
proof (induction n arbitrary: writers s)
  case 0
  then show ?case by simp
next
  case (Suc n)
  show ?case
  proof (cases writers)
    case Nil
    then show ?thesis by simp
  next
    case (Cons w later)
    then show ?thesis using Suc [of later]
      by (cases w) (simp_all add: Let_def split: sum.splits)
  qed
qed

lemma delete_loop_take:
  "delete_loop n table rid (take n writers) s = delete_loop n table rid writers s"
proof (induction n arbitrary: writers s)
  case 0
  then show ?case by simp
next
  case (Suc n)
  show ?case
  proof (cases writers)
    case Nil
    then show ?thesis by simp
  next
    case (Cons w later)
    then show ?thesis using Suc [of later]
      by (cases w) (simp_all add: Let_def split: sum.splits)
  qed
qed

lemma refreshSession_loop_take:
  "refreshSession_loop n sessionId ttl (take n writers) s
     = refreshSession_loop n sessionId ttl writers s"
proof (induction n arbitrary: writers s)
  case 0
  then show ?case by simp
next
  case (Suc n)
  show ?case
  proof (cases writers)
    case Nil
    then show ?thesis by simp
  next
    case (Cons w later)
    then show ?thesis using Suc [of later]
      by (cases w) (simp_all add: Let_def split: option.splits sum.splits)
  qed
qed

text \<open>
  C6. When each of five attempts in a row finds its row (or session) and has its
  transaction aborted by a concurrent write to the watched key, \<open>update\<close>, \<open>delete\<close> and
  \<open>refreshSession\<close> raise their "maximum retries" error: the result is the error, not
  \<open>true\<close> and not \<open>false\<close>. No call makes a sixth attempt: what other clients do after
  the fifth has no effect on the result.
\<close>

theorem retries_exhausted_raise:
  "(all_aborted 5 (row_present table rid) (rowKey table rid) writers s \<longrightarrow>
      fst (update table rid updates timestamp writers s) = Inl (MaxRetries ''update row'')
      \<and> fst (delete table rid writers s) = Inl (MaxRetries ''delete row''))
   \<and> (all_aborted 5 (session_present sessionId) (sessionKey sessionId) writers s \<longrightarrow>
      fst (refreshSession sessionId ttl writers s) = Inl (MaxRetries ''refresh session''))
   \<and> update table rid updates timestamp (take 5 writers) s
        = update table rid updates timestamp writers s
   \<and> delete table rid (take 5 writers) s = delete table rid writers s
   \<and> refreshSession sessionId ttl (take 5 writers) s = refreshSession sessionId ttl writers s"
  using update_loop_exhausted [of 5 table rid writers s updates timestamp]
    delete_loop_exhausted [of 5 table rid writers s]
    refreshSession_loop_exhausted [of 5 sessionId writers s ttl]
    update_loop_take [of 5 table rid updates timestamp writers s]
    delete_loop_take [of 5 table rid writers s]
    refreshSession_loop_take [of 5 sessionId ttl writers s]
  by (simp add: update_def delete_def refreshSession_def maxRetries_def)

theorem retries_exhausted_raise_witness:
  "all_aborted 5 (row_present ''t'' ''1'') (rowKey ''t'' ''1'') five_writers with_session
   \<and> all_aborted 5 (session_present ''s1'') (sessionKey ''s1'') five_writers with_session
   \<and> fst (update ''t'' ''1'' [(''a'', ''y'')] ''200'' five_writers with_session)
       = Inl (MaxRetries ''update row'')
   \<and> fst (delete ''t'' ''1'' five_writers with_session) = Inl (MaxRetries ''delete row'')
   \<and> fst (refreshSession ''s1'' 60 five_writers with_session)
       = Inl (MaxRetries ''refresh session'')"
proof -
  have h1: "all_aborted 5 (row_present ''t'' ''1'') (rowKey ''t'' ''1'') five_writers with_session"
    by (simp add: model_defs example_defs eval_nat_numeral)
  have h2: "all_aborted 5 (session_present ''s1'') (sessionKey ''s1'') five_writers with_session"
    by (simp add: model_defs example_defs eval_nat_numeral)
  from retries_exhausted_raise [of "''t''" "''1''" five_writers with_session
      "[(''a'', ''y'')]" "''200''" "''s1''" 60] h1 h2
  show ?thesis by blast
qed

section \<open>Absent targets\<close>

text \<open>
  C7, as amended. When nothing is stored under the row's key, \<open>update\<close> and \<open>delete\<close>
  return \<open>false\<close>, and when nothing is stored under the session's key, \<open>refreshSession\<close>
  returns \<open>false\<close>; none raises an error, whatever other clients do, and the store is
  left as it was found but for the watch, which is released.
\<close>

theorem absent_target_not_found:
  "(r_keys s (rowKey table rid) = None \<longrightarrow>
      update table rid updates timestamp writers s = (Inr False, s\<lparr>r_watched := []\<rparr>)
      \<and> delete table rid writers s = (Inr False, s\<lparr>r_watched := []\<rparr>))
   \<and> (r_keys s (sessionKey sessionId) = None \<longrightarrow>
      refreshSession sessionId ttl writers s = (Inr False, s\<lparr>r_watched := []\<rparr>))"
  by (simp add: update_def delete_def refreshSession_def maxRetries_def eval_nat_numeral
      watch_def unwatch_def exists_key_def hgetall_reply_def get_reply_def Let_def)

theorem absent_target_not_found_witness:
  "r_keys one_row (rowKey ''t'' ''7'') = None \<and> r_keys one_row (sessionKey ''s1'') = None
   \<and> update ''t'' ''7'' [(''a'', ''y'')] ''200'' [] one_row = (Inr False, one_row)
   \<and> delete ''t'' ''7'' [] one_row = (Inr False, one_row)
   \<and> refreshSession ''s1'' 60 [] one_row = (Inr False, one_row)"
proof -
  have h1: "r_keys one_row (rowKey ''t'' ''7'') = None"
    by (simp add: model_defs example_defs)
  have h2: "r_keys one_row (sessionKey ''s1'') = None"
    by (simp add: model_defs example_defs)
  have h3: "one_row\<lparr>r_watched := []\<rparr> = one_row"
    by (simp add: model_defs example_defs)
  from absent_target_not_found [of one_row "''t''" "''7''" "[(''a'', ''y'')]" "''200''" "[]"
      "''s1''" 60] h1 h2 h3
  show ?thesis by simp
qed

text \<open>
  C7 as stated fails when the row is absent but its key is in use. In \<open>one_row\<close> the
  table \<open>t\<close> has the row \<open>1\<close> and no row \<open>rows\<close>, but \<^verbatim>\<open>t:rows\<close> is the key of the
  table's membership set: \<^verbatim>\<open>HGETALL\<close> on it is answered \<^verbatim>\<open>WRONGTYPE\<close>, and \<open>update\<close>
  and \<open>delete\<close> throw that error. In \<open>session_row\<close> a table named \<open>session\<close> has the row
  \<open>1\<close>, a hash under the key of the session \<open>1\<close>, which does not exist: \<open>refreshSession\<close>
  throws.
\<close>

lemma wrong_type_thrown:
  "(hgetall_reply (rowKey table rid) s = Inl e \<longrightarrow>
      update table rid updates timestamp writers s = (Inl e, s\<lparr>r_watched := []\<rparr>)
      \<and> delete table rid writers s = (Inl e, s\<lparr>r_watched := []\<rparr>))
   \<and> (get_reply (sessionKey sessionId) s = Inl e \<longrightarrow>
      refreshSession sessionId ttl writers s = (Inl e, s\<lparr>r_watched := []\<rparr>))"
proof -
  have "hgetall_reply (rowKey table rid) s = Inl e \<Longrightarrow> exists_key (rowKey table rid) s"
    by (auto simp: hgetall_reply_def exists_key_def split: option.splits)
  then show ?thesis
    by (auto simp: update_def delete_def refreshSession_def maxRetries_def eval_nat_numeral
        Let_def)
qed

theorem absent_target_counterexample:
  "r_hashes one_row (rowKey ''t'' ''rows'') = []
   \<and> update ''t'' ''rows'' [(''a'', ''y'')] ''200'' [] one_row = (Inl WrongType, one_row)
   \<and> delete ''t'' ''rows'' [] one_row = (Inl WrongType, one_row)
   \<and> r_strings session_row (sessionKey ''1'') = None
   \<and> refreshSession ''1'' 60 [] session_row = (Inl WrongType, session_row)"
proof -
  have w: "one_row\<lparr>r_watched := []\<rparr> = one_row" "session_row\<lparr>r_watched := []\<rparr> = session_row"
    by (simp_all add: model_defs example_defs)
  have r: "hgetall_reply (rowKey ''t'' ''rows'') one_row = Inl WrongType"
    "get_reply (sessionKey ''1'') session_row = Inl WrongType"
    by (simp_all add: model_defs example_defs)
  have a: "r_hashes one_row (rowKey ''t'' ''rows'') = []"
    "r_strings session_row (sessionKey ''1'') = None"
    by (simp_all add: model_defs example_defs)
  from wrong_type_thrown [of "''t''" "''rows''" one_row WrongType "[(''a'', ''y'')]" "''200''"
      "[]" "''1''" 60] r(1)
    wrong_type_thrown [of "''t''" "''rows''" session_row WrongType "[]" "''200''"
      "[]" "''1''" 60] r(2) a w
  show ?thesis by simp
qed

section \<open>Index maintenance by update\<close>

text \<open>
  When the value that \<open>update\<close> replaces is not the empty string, the row id leaves the
  index of the old value and enters the index of the new one: row \<open>1\<close> of \<open>one_row\<close>
  holds \<open>a = x\<close>.
\<close>

lemma update_moves_nonempty_value:
  "fst (update ''t'' ''1'' [(''a'', ''y'')] ''200'' [] one_row) = Inr True
   \<and> ''1'' \<notin> set (smembers (indexKey ''t'' ''a'' ''x'')
                  (snd (update ''t'' ''1'' [(''a'', ''y'')] ''200'' [] one_row)))
   \<and> ''1'' \<in> set (smembers (indexKey ''t'' ''a'' ''y'')
                  (snd (update ''t'' ''1'' [(''a'', ''y'')] ''200'' [] one_row)))"
  by (simp add: model_defs example_defs eval_nat_numeral)

text \<open>
  C1. The claim asks that after \<open>update(table, id, {f: v2})\<close> on a row whose value of \<open>f\<close>
  was \<open>v1 \<noteq> v2\<close>, the id is out of the index of \<open>v1\<close> and in the index of \<open>v2\<close>, and that
  \<open>countByField\<close> shows it. In the store \<open>blank_row\<close> the table \<open>t\<close> has the one row \<open>1\<close>,
  inserted with \<open>a\<close> set to the empty string. \<open>update\<close> of \<open>a\<close> to \<open>x\<close> returns \<open>true\<close>, and
  afterwards the id is still in the index of the empty string and not in the index of
  \<open>x\<close>; \<open>countByField\<close> gives 1 and 0.
\<close>

theorem update_from_empty_value_leaves_index:
  "getById ''t'' ''1'' blank_row
     = Inr (Some [(''a'', ''''), (''_created_at'', ''100''), (''_updated_at'', ''100'')])
   \<and> fst (update ''t'' ''1'' [(''a'', ''x'')] ''200'' [] blank_row) = Inr True
   \<and> ''1'' \<in> set (smembers (indexKey ''t'' ''a'' '''')
                  (snd (update ''t'' ''1'' [(''a'', ''x'')] ''200'' [] blank_row)))
   \<and> ''1'' \<notin> set (smembers (indexKey ''t'' ''a'' ''x'')
                  (snd (update ''t'' ''1'' [(''a'', ''x'')] ''200'' [] blank_row)))
   \<and> countByField ''t'' ''a'' ''''
        (snd (update ''t'' ''1'' [(''a'', ''x'')] ''200'' [] blank_row)) = Inr 1
   \<and> countByField ''t'' ''a'' ''x''
        (snd (update ''t'' ''1'' [(''a'', ''x'')] ''200'' [] blank_row)) = Inr 0"
  by (simp add: model_defs example_defs eval_nat_numeral)

section \<open>The fields of a row\<close>

text \<open>
  C2. The claim asks that the fields of a stored row are always the schema's fields and
  the two timestamps, also after \<open>update\<close> with any partial record. In the store
  \<open>one_row\<close> the schema of \<open>t\<close> is the single field \<open>a\<close>. \<open>update\<close> with the record
  \<open>{zzz: q}\<close> returns \<open>true\<close> and the row then has the field \<open>zzz\<close>: \<open>update\<close> never reads
  the schema.
\<close>

theorem update_writes_foreign_field:
  "smembers (schemaKey ''t'') one_row = [''a'']
   \<and> fst (update ''t'' ''1'' [(''zzz'', ''q'')] ''200'' [] one_row) = Inr True
   \<and> getById ''t'' ''1'' (snd (update ''t'' ''1'' [(''zzz'', ''q'')] ''200'' [] one_row))
       = Inr (Some [(''a'', ''x''), (''_created_at'', ''100''), (''_updated_at'', ''200''),
                    (''zzz'', ''q'')])"
  by (simp add: model_defs example_defs eval_nat_numeral)

section \<open>Insert followed by getById\<close>

lemma hmset_result:
  assumes "hmset key obj s = Inr s'"
  shows "r_hashes s' key
     = fold (\<lambda>(field, val) h. AList.update field val h) obj (r_hashes s key)"
proof (cases "r_keys s key")
  case None
  with assms read_None [OF None] show ?thesis
    by (auto simp: hmset_def read_put)
next
  case (Some val)
  with assms show ?thesis
    by (cases val) (auto simp: hmset_def read_put dest: read_RHash)
qed

lemma map_of_fold_update:
  "distinct (map fst kvs) \<Longrightarrow>
     map_of (fold (\<lambda>(field, val) h. AList.update field val h) kvs acc) = map_of acc ++ map_of kvs"
proof (induction kvs arbitrary: acc)
  case Nil
  then show ?case by simp
next
  case (Cons kv kvs)
  obtain k v where kv: "kv = (k, v)" by (cases kv)
  from Cons.prems kv have notin: "k \<notin> dom (map_of kvs)"
    by (auto simp: dom_map_of_conv_image_fst)
  from Cons.prems have "distinct (map fst kvs)" by simp
  from Cons.IH [OF this, of "AList.update k v acc"] kv notin show ?case
    by (auto simp: update_conv' map_add_def fun_eq_iff domIff split: option.splits)
qed

lemma distinct_fold_update:
  "distinct (map fst acc) \<Longrightarrow>
     distinct (map fst (fold (\<lambda>(field, val) h. AList.update field val h) kvs acc))"
  by (induction kvs arbitrary: acc) (auto simp: distinct_update)

lemma fold_update_nonempty:
  "kvs \<noteq> [] \<Longrightarrow> fold (\<lambda>(field, val) h. AList.update field val h) kvs acc \<noteq> []"
proof (induction kvs arbitrary: acc)
  case Nil
  then show ?case by simp
next
  case (Cons kv kvs)
  obtain k v where kv: "kv = (k, v)" by (cases kv)
  have ne: "AList.update k v acc \<noteq> []" by (cases acc) auto
  show ?case
  proof (cases kvs)
    case Nil
    with kv ne show ?thesis by simp
  next
    case (Cons a list)
    then have "kvs \<noteq> []" by simp
    from Cons.IH [OF this] kv show ?thesis by simp
  qed
qed

text \<open>
  C4, as amended. If \<open>insert\<close> succeeds and returns \<open>rid\<close>, and no hash was stored under
  the new row's key before the call, then \<open>getById\<close> returns the inserted record with
  \<open>_created_at\<close> and \<open>_updated_at\<close> both set to the insertion timestamp and no other
  field. (A successful insert implies that the table has a schema and that the record's
  keys are the schema's fields; the keys of a record, a JavaScript object, are distinct.)
\<close>

theorem insert_then_getById:
  assumes "insert_row number_text table row timestamp s = (Inr rid, s')"
    and "distinct (map fst row)"
    and "r_hashes s (rowKey table rid) = []"
  shows "\<exists>data. getById table rid s' = Inr (Some data) \<and> distinct (map fst data)
     \<and> map_of data = (map_of row)(''_created_at'' \<mapsto> timestamp, ''_updated_at'' \<mapsto> timestamp)"
proof -
  let ?obj = "obj_set ''_updated_at'' timestamp (obj_set ''_created_at'' timestamp row)"
  let ?data = "fold (\<lambda>(field, val) h. AList.update field val h) ?obj []"
  from insert_row_success [OF assms(1)] obtain n s1 s2 s3 where
    inc: "incr (nextIdKey table) s = Inr (n, s1)" and
    hm: "hmset (rowKey table rid) ?obj s1 = Inr s2" and
    sa: "sadd (rowsSetKey table) [rid] s2 = Inr s3" and
    s': "s' = fold (\<lambda>(field, val). quiet (sadd (indexKey table field val) [rid])) row s3"
    by blast
  have "r_hashes s' (rowKey table rid) = r_hashes s3 (rowKey table rid)"
    unfolding s' using fold_sadd_frame [of "indexKey table" "[rid]" row s3] by simp
  also have "\<dots> = r_hashes s2 (rowKey table rid)"
    using sadd_frame [OF sa] by simp
  also have "\<dots> = ?data"
    using hmset_result [OF hm] incr_frame [OF inc] assms(3) by simp
  finally have h: "r_hashes s' (rowKey table rid) = ?data" .
  have dobj: "distinct (map fst ?obj)"
    using assms(2) by (simp add: obj_set_def distinct_update)
  have "?obj \<noteq> []" by (cases row) (auto simp: obj_set_def)
  then have ne: "?data \<noteq> []" by (rule fold_update_nonempty)
  have m: "map_of ?data = (map_of row)(''_created_at'' \<mapsto> timestamp, ''_updated_at'' \<mapsto> timestamp)"
    using map_of_fold_update [OF dobj, of "[]"] by (simp add: obj_set_def update_conv')
  have "distinct (map fst ?data)" by (rule distinct_fold_update) simp
  moreover from h ne hash_present [of s' "rowKey table rid"]
  have "getById table rid s' = Inr (Some ?data)"
    by (simp add: getById_def)
  ultimately show ?thesis using m by blast
qed

theorem insert_then_getById_witness:
  "insert_row unrounded ''t'' [(''a'', ''x'')] ''100'' table_t = (Inr ''1'', one_row)
   \<and> r_hashes table_t (rowKey ''t'' ''1'') = []
   \<and> (\<exists>data. getById ''t'' ''1'' one_row = Inr (Some data) \<and> distinct (map fst data)
        \<and> map_of data
            = [''a'' \<mapsto> ''x'', ''_created_at'' \<mapsto> ''100'', ''_updated_at'' \<mapsto> ''100''])"
proof -
  have h1: "insert_row unrounded ''t'' [(''a'', ''x'')] ''100'' table_t = (Inr ''1'', one_row)"
    by (simp add: prod_eq_iff one_row_def) (simp add: model_defs table_t_def)
  have h2: "distinct (map fst [(''a'', ''x'')])" by simp
  have h3: "r_hashes table_t (rowKey ''t'' ''1'') = []"
    by (simp add: model_defs table_t_def)
  from insert_then_getById [OF h1 h2 h3] h1 h3 show ?thesis by simp
qed

text \<open>
  C4 as stated fails when the minted id is one that was minted before. In \<open>recycled\<close>
  the row \<open>1\<close> of table \<open>t\<close> (schema \<open>a\<close>) has been given the field \<open>b\<close> by \<open>update\<close>,
  and \<open>initNextId\<close> has put the counter back to zero. The next insert of \<open>{a: y}\<close>
  succeeds with id \<open>1\<close> again, and \<open>getById\<close> returns a record that still has \<open>b\<close>.
\<close>

theorem insert_then_getById_counterexample:
  "smembers (schemaKey ''t'') recycled = [''a'']
   \<and> fst (insert_row unrounded ''t'' [(''a'', ''y'')] ''300'' recycled) = Inr ''1''
   \<and> getById ''t'' ''1'' (snd (insert_row unrounded ''t'' [(''a'', ''y'')] ''300'' recycled))
       = Inr (Some [(''a'', ''y''), (''_created_at'', ''300''), (''_updated_at'', ''300''),
                    (''b'', ''q'')])"
  by (simp add: model_defs example_defs eval_nat_numeral)

section \<open>Delete\<close>

lemma quiet_srem_removes: "rid \<notin> set (r_sets (quiet (srem key rid) s) key)"
proof (cases "r_keys s key")
  case None
  with read_None [OF None] show ?thesis by (simp add: quiet_def srem_def)
next
  case (Some val)
  then show ?thesis
    by (cases val) (auto simp: quiet_def srem_def read_put read_del_key dest: read_as)
qed

lemma quiet_srem_keeps_absent:
  assumes "rid \<notin> set (r_sets s k)"
  shows "rid \<notin> set (r_sets (quiet (srem key member) s) k)"
proof (cases "r_keys s key")
  case None
  with assms show ?thesis by (simp add: quiet_def srem_def)
next
  case (Some val)
  with assms show ?thesis
    by (cases val) (auto simp: quiet_def srem_def read_put read_del_key dest: read_RSet)
qed

lemma fold_srem_keeps_absent:
  "rid \<notin> set (r_sets st key) \<Longrightarrow>
     rid \<notin> set (r_sets (fold (\<lambda>(field, val) st.
                if \<not> startsWith field ''_''
                then quiet (srem (indexKey table field val) rid) st
                else st) rowData st) key)"
proof (induction rowData arbitrary: st)
  case Nil
  then show ?case by simp
next
  case (Cons fv rowData)
  obtain f v where fv: "fv = (f, v)" by (cases fv)
  from Cons.prems have "rid \<notin> set (r_sets (if \<not> startsWith f ''_''
        then quiet (srem (indexKey table f v) rid) st else st) key)"
    by (simp add: quiet_srem_keeps_absent)
  from Cons.IH [OF this] fv show ?case by simp
qed

lemma fold_srem_removes:
  "(f, v) \<in> set rowData \<Longrightarrow> \<not> startsWith f ''_'' \<Longrightarrow>
     rid \<notin> set (r_sets (fold (\<lambda>(field, val) st.
                if \<not> startsWith field ''_''
                then quiet (srem (indexKey table field val) rid) st
                else st) rowData st) (indexKey table f v))"
proof (induction rowData arbitrary: st)
  case Nil
  then show ?case by simp
next
  case (Cons fv rowData)
  show ?case
  proof (cases "fv = (f, v)")
    case True
    have "rid \<notin> set (r_sets (quiet (srem (indexKey table f v) rid) st) (indexKey table f v))"
      by (rule quiet_srem_removes)
    from fold_srem_keeps_absent [OF this] True Cons.prems(2) show ?thesis by simp
  next
    case False
    with Cons.prems have "(f, v) \<in> set rowData" by simp
    from Cons.IH [OF this Cons.prems(2)] show ?thesis by (simp add: case_prod_beta)
  qed
qed

lemma quiet_srem_keeps_none:
  assumes "r_keys s k = None"
  shows "r_keys (quiet (srem key member) s) k = None"
proof (cases "r_keys s key")
  case None
  with assms show ?thesis by (simp add: quiet_def srem_def)
next
  case (Some val)
  with assms show ?thesis
    by (cases val) (auto simp: quiet_def srem_def put_def del_key_def)
qed

lemma fold_srem_keeps_none:
  "r_keys s k = None \<Longrightarrow>
   r_keys (fold (\<lambda>(field, val) st.
       if \<not> startsWith field ''_'' then quiet (srem (indexKey table field val) rid) st else st)
     rowData s) k = None"
  by (induction rowData arbitrary: s) (auto simp: quiet_srem_keeps_none)

text \<open>
  What \<open>delete\<close> does for a row that exists, when no other client writes during the call:
  it returns \<open>true\<close>; afterwards \<open>getById\<close> finds nothing, no row of \<open>getAll\<close> has the id,
  whatever the query options, and the id is in no index \<open>(table, f, v)\<close> where \<open>v\<close> is the
  value the row held for a field \<open>f\<close> whose name does not start with an underscore.
\<close>

lemma delete_removes_row:
  assumes "r_hashes s (rowKey table rid) \<noteq> []"
  shows "fst (delete table rid [] s) = Inr True
     \<and> getById table rid (snd (delete table rid [] s)) = Inr None
     \<and> (\<forall>rows. getAll table options (snd (delete table rid [] s)) = Inr rows \<longrightarrow>
          rid \<notin> fst ` set rows)
     \<and> (\<forall>(field, val) \<in> set (r_hashes s (rowKey table rid)).
          \<not> startsWith field ''_'' \<longrightarrow>
            rid \<notin> set (smembers (indexKey table field val) (snd (delete table rid [] s))))"
proof -
  let ?rowData = "r_hashes s (rowKey table rid)"
  let ?s2 = "unwatch (del_key (rowKey table rid)
               (quiet (srem (rowsSetKey table) rid) (watch (rowKey table rid) s)))"
  let ?s3 = "fold (\<lambda>(field, val) st.
                if \<not> startsWith field ''_''
                then quiet (srem (indexKey table field val) rid) st
                else st) ?rowData ?s2"
  from hash_present [OF assms] assms have d: "delete table rid [] s = (Inr True, ?s3)"
    by (simp add: delete_def maxRetries_def eval_nat_numeral Let_def)
  have "r_keys ?s2 (rowKey table rid) = None"
    by (simp add: unwatch_def del_key_def)
  then have "r_keys ?s3 (rowKey table rid) = None"
    by (rule fold_srem_keeps_none)
  then have g: "getById table rid ?s3 = Inr None"
    by (simp add: getById_def hgetall_reply_def)
  have "rid \<notin> set (r_sets (quiet (srem (rowsSetKey table) rid) (watch (rowKey table rid) s))
      (rowsSetKey table))"
    by (rule quiet_srem_removes)
  then have "rid \<notin> set (r_sets ?s2 (rowsSetKey table))"
    by (simp add: read_del_key)
  then have "rid \<notin> set (smembers (rowsSetKey table) ?s3)"
    using fold_srem_keeps_absent by (simp add: smembers_def)
  then have out: "rid \<notin> fst ` set (map (\<lambda>rowId. (rowId, hgetall (rowKey table rowId) ?s3))
                (smembers (rowsSetKey table) ?s3))"
    by (auto simp: image_iff)
  have a: "\<forall>rows. getAll table options ?s3 = Inr rows \<longrightarrow> rid \<notin> fst ` set rows"
  proof (intro allI impI)
    fix result
    assume "getAll table options ?s3 = Inr result"
    from getAll_Inr [OF this] obtain rows where
      rows: "result = applyQueryOptions rows options"
        "rows = map (\<lambda>rowId. (rowId, hgetall (rowKey table rowId) ?s3))
                  (smembers (rowsSetKey table) ?s3)"
      by blast
    from rows(1) set_applyQueryOptions [of rows options] have "set result \<subseteq> set rows"
      by simp
    with out rows(2) show "rid \<notin> fst ` set result" by blast
  qed
  have i: "\<forall>(field, val) \<in> set ?rowData. \<not> startsWith field ''_'' \<longrightarrow>
            rid \<notin> set (smembers (indexKey table field val) ?s3)"
    using fold_srem_removes by (auto simp: smembers_def)
  from d g a i show ?thesis by simp
qed

text \<open>
  C5. The claim asks that after a successful \<open>delete\<close> the row is gone from \<open>getAll\<close> and
  \<open>getById\<close> and its id is in no field-value index it was a member of. In the store
  \<open>underscore_row\<close> the schema of table \<open>p\<close> is the single field \<open>_x\<close> and row \<open>1\<close> holds
  \<open>_x = v\<close>; \<open>insert\<close> put the id into the index \<open>(p, _x, v)\<close>. \<open>delete\<close> returns \<open>true\<close> and
  removes the row, but it passes over every field whose name starts with an underscore,
  not only \<open>_created_at\<close> and \<open>_updated_at\<close>: the id is still in the index \<open>(p, _x, v)\<close>.
\<close>

theorem delete_skips_underscore_field:
  "smembers (schemaKey ''p'') underscore_row = [''_x'']
   \<and> getById ''p'' ''1'' underscore_row
       = Inr (Some [(''_x'', ''v''), (''_created_at'', ''100''), (''_updated_at'', ''100'')])
   \<and> ''1'' \<in> set (smembers (indexKey ''p'' ''_x'' ''v'') underscore_row)
   \<and> fst (delete ''p'' ''1'' [] underscore_row) = Inr True
   \<and> getById ''p'' ''1'' (snd (delete ''p'' ''1'' [] underscore_row)) = Inr None
   \<and> getAll ''p'' None (snd (delete ''p'' ''1'' [] underscore_row)) = Inr []
   \<and> ''1'' \<in> set (smembers (indexKey ''p'' ''_x'' ''v'')
                  (snd (delete ''p'' ''1'' [] underscore_row)))
   \<and> countByField ''p'' ''_x'' ''v'' (snd (delete ''p'' ''1'' [] underscore_row)) = Inr 1"
  by (simp add: model_defs example_defs eval_nat_numeral getAll_def applyQueryOptions_def)

section \<open>Row ids\<close>

lemma nextIdKey_inject: "nextIdKey t = nextIdKey t' \<longleftrightarrow> t = t'"
  by (simp add: nextIdKey_def)

lemma toString_inject: "toString a = toString b \<Longrightarrow> a = b"
  using read_int_toString by metis

lemma parseInteger64_toString:
  "- (2 ^ 63) \<le> n \<Longrightarrow> n < 2 ^ 63 \<Longrightarrow> parseInteger64 (toString n) = Some n"
  by (simp add: parseInteger64_def parseInteger_toString)

lemma parseInteger64_range:
  "parseInteger64 v = Some c \<Longrightarrow> - (2 ^ 63) \<le> c \<and> c < 2 ^ 63"
  by (auto simp: parseInteger64_def split: option.splits if_splits)

lemma createTable_strings: "r_strings (snd (createTable t fieldNames s)) = r_strings s"
  by (auto simp: createTable_def split: sum.splits dest: sadd_frame)

lemma watched_strings: "r_strings (s\<lparr>r_watched := w\<rparr>) = r_strings s"
  by (simp add: r_strings_def fun_eq_iff)

lemma update_loop_strings:
  "r_strings (snd (update_loop n t rid updates timestamp [] s)) = r_strings s"
  by (cases n) (simp_all add: Let_def fold_move_strings watched_strings split: sum.splits)

lemma delete_loop_strings:
  "r_strings (snd (delete_loop n t rid [] s)) = r_strings s"
proof (cases n)
  case 0
  then show ?thesis by simp
next
  case (Suc m)
  have "\<And>rowData. hgetall_reply (rowKey t rid) s = Inr rowData \<Longrightarrow> rowData \<noteq> [] \<Longrightarrow>
      r_strings (del_key (rowKey t rid) (quiet (srem (rowsSetKey t) rid) (watch (rowKey t rid) s)))
        = r_strings s"
  proof -
    fix rowData
    assume "hgetall_reply (rowKey t rid) s = Inr rowData" "rowData \<noteq> []"
    then have "r_strings s (rowKey t rid) = None"
      by (auto simp: hgetall_reply_def r_strings_def split: option.splits rvalue.splits)
    then have "r_strings (quiet (srem (rowsSetKey t) rid) (watch (rowKey t rid) s)) (rowKey t rid)
        = None"
      by simp
    from del_hash_strings [OF this]
    show "r_strings (del_key (rowKey t rid)
        (quiet (srem (rowsSetKey t) rid) (watch (rowKey t rid) s))) = r_strings s"
      by simp
  qed
  with Suc show ?thesis
    by (simp add: Let_def fold_srem_strings watched_strings split: sum.splits)
qed

lemma incr_counter:
  assumes "incr (nextIdKey t) s = Inr (n, s1)"
  shows "n = counter_start t s + 1 \<and> counter_start t s1 = n
     \<and> (\<forall>t'. t' \<noteq> t \<longrightarrow> counter_start t' s1 = counter_start t' s)"
proof -
  have "n = counter_start t s + 1 \<and> - (2 ^ 63) \<le> n \<and> n < 2 ^ 63
      \<and> s1 = put (nextIdKey t) (RString (toString n)) s"
  proof (cases "r_keys s (nextIdKey t)")
    case None
    with assms read_None [OF None] show ?thesis
      by (simp add: incr_def counter_start_def)
  next
    case (Some val)
    show ?thesis
    proof (cases val)
      case (RString v)
      with Some assms obtain c where c: "parseInteger64 v = Some c" "c \<noteq> 2 ^ 63 - 1"
        "n = c + 1" "s1 = put (nextIdKey t) (RString (toString n)) s"
        by (auto simp: incr_def split: option.splits if_splits)
      from Some RString have "r_strings s (nextIdKey t) = Some v"
        by (simp add: r_strings_def)
      with c parseInteger64_range [OF c(1)] show ?thesis
        by (simp add: counter_start_def)
    qed (use Some assms in \<open>simp_all add: incr_def\<close>)
  qed
  then show ?thesis
    by (simp add: counter_start_def read_put parseInteger64_toString nextIdKey_inject)
qed

lemma insert_row_counter:
  assumes "insert_row number_text t row timestamp s = (r, s')"
  shows "(r_strings s' = r_strings s \<and> (\<forall>rid. r \<noteq> Inr rid))
     \<or> (\<exists>n s1. incr (nextIdKey t) s = Inr (n, s1) \<and> r_strings s' = r_strings s1
            \<and> (\<forall>rid. r = Inr rid \<longrightarrow> rid = reply_id number_text n))"
proof (cases "incr (nextIdKey t) s")
  case (Inl e)
  with assms show ?thesis
    by (auto simp: insert_row_def Let_def split: if_splits option.splits sum.splits)
next
  case (Inr ns)
  obtain n s1 where ns: "ns = (n, s1)" by (cases ns)
  let ?rid = "reply_id number_text n"
  let ?obj = "obj_set ''_updated_at'' timestamp (obj_set ''_created_at'' timestamp row)"
  show ?thesis
  proof (cases "\<forall>rid. r \<noteq> Inr rid \<and> s' = s")
    case True
    then show ?thesis by simp
  next
    case False
    with assms Inr ns have
      after: "(s' = s1 \<and> (\<forall>rid. r \<noteq> Inr rid))
        \<or> (\<exists>s2. hmset (rowKey t ?rid) ?obj s1 = Inr s2
              \<and> ((s' = s2 \<and> (\<forall>rid. r \<noteq> Inr rid))
                 \<or> (\<exists>s3. sadd (rowsSetKey t) [?rid] s2 = Inr s3 \<and> r = Inr ?rid
                       \<and> s' = fold (\<lambda>(field, val). quiet (sadd (indexKey t field val) [?rid]))
                                row s3)))"
      by (auto simp: insert_row_def Let_def split: if_splits option.splits sum.splits)
    have "r_strings s' = r_strings s1 \<and> (\<forall>rid. r = Inr rid \<longrightarrow> rid = ?rid)"
      using after fold_sadd_frame [of "indexKey t" "[?rid]" row]
      by (auto dest!: hmset_frame sadd_frame)
    with Inr ns show ?thesis by auto
  qed
qed

lemma insert_row_start:
  assumes "insert_row number_text t row timestamp s = (r, s')"
  shows "(counter_start table s' = counter_start table s
            \<or> counter_start table s' = counter_start table s + 1)
     \<and> (\<forall>rid. r = Inr rid \<and> t = table \<longrightarrow>
            rid = reply_id number_text (counter_start table s + 1)
            \<and> counter_start table s' = counter_start table s + 1)"
proof -
  from insert_row_counter [OF assms] show ?thesis
  proof
    assume "r_strings s' = r_strings s \<and> (\<forall>rid. r \<noteq> Inr rid)"
    then show ?thesis by (simp add: counter_start_def)
  next
    assume "\<exists>n s1. incr (nextIdKey t) s = Inr (n, s1) \<and> r_strings s' = r_strings s1
            \<and> (\<forall>rid. r = Inr rid \<longrightarrow> rid = reply_id number_text n)"
    then obtain n s1 where inc: "incr (nextIdKey t) s = Inr (n, s1)"
      and st: "r_strings s' = r_strings s1"
      and rid: "\<forall>rid. r = Inr rid \<longrightarrow> rid = reply_id number_text n"
      by blast
    from st have same: "\<And>tb. counter_start tb s' = counter_start tb s1"
      by (simp add: counter_start_def)
    from incr_counter [OF inc] same rid show ?thesis
      by (cases "t = table") auto
  qed
qed

lemma minted_ids_increase:
  assumes "- (2 ^ 53) < counter_start table s"
    and "counter_start table s + int (length calls) < 2 ^ 53"
  shows "\<exists>ns. minted_ids number_text table calls s = map toString ns \<and> sorted_wrt (<) ns
           \<and> (\<forall>n \<in> set ns. counter_start table s < n)"
  using assms
proof (induction calls arbitrary: s)
  case Nil
  then show ?case by simp
next
  case (Cons call calls)
  have keep: "\<And>s'. counter_start table s' = counter_start table s \<Longrightarrow>
      \<exists>ns. minted_ids number_text table calls s' = map toString ns \<and> sorted_wrt (<) ns
           \<and> (\<forall>n \<in> set ns. counter_start table s < n)"
  proof -
    fix s'
    assume eq: "counter_start table s' = counter_start table s"
    with Cons.prems have "- (2 ^ 53) < counter_start table s'"
      "counter_start table s' + int (length calls) < 2 ^ 53"
      by simp_all
    from Cons.IH [OF this] eq
    show "\<exists>ns. minted_ids number_text table calls s' = map toString ns \<and> sorted_wrt (<) ns
           \<and> (\<forall>n \<in> set ns. counter_start table s < n)"
      by simp
  qed
  show ?case
  proof (cases call)
    case (CreateTable t fieldNames)
    have "counter_start table (snd (createTable t fieldNames s)) = counter_start table s"
      by (simp add: counter_start_def createTable_strings)
    from keep [OF this] CreateTable show ?thesis by simp
  next
    case (Update t rid updates timestamp)
    have "counter_start table (snd (update t rid updates timestamp [] s)) = counter_start table s"
      by (simp add: counter_start_def update_def update_loop_strings)
    from keep [OF this] Update show ?thesis by simp
  next
    case (Delete t rid)
    have "counter_start table (snd (delete t rid [] s)) = counter_start table s"
      by (simp add: counter_start_def delete_def delete_loop_strings)
    from keep [OF this] Delete show ?thesis by simp
  next
    case (Insert t row timestamp)
    obtain r s' where res: "insert_row number_text t row timestamp s = (r, s')"
      by (cases "insert_row number_text t row timestamp s")
    note step = insert_row_start [OF res, of table]
    let ?c = "counter_start table s"
    from step Cons.prems have b: "- (2 ^ 53) < counter_start table s'"
      "counter_start table s' + int (length calls) < 2 ^ 53" "?c \<le> counter_start table s'"
      by auto
    from Cons.IH [OF b(1,2)] obtain ns where
      ns: "minted_ids number_text table calls s' = map toString ns" "sorted_wrt (<) ns"
        "\<forall>n \<in> set ns. counter_start table s' < n"
      by blast
    show ?thesis
    proof (cases "\<exists>rid. r = Inr rid \<and> t = table")
      case True
      then obtain rid where r: "r = Inr rid" "t = table" by blast
      with step have rid: "rid = reply_id number_text (?c + 1)"
        and c': "counter_start table s' = ?c + 1"
        by auto
      from Cons.prems have "- (2 ^ 53) < ?c + 1" "?c + 1 < 2 ^ 53" by simp_all
      with rid have "rid = toString (?c + 1)" by (simp add: reply_id_def)
      with ns c' r Insert res
      have "minted_ids number_text table (call # calls) s = map toString ((?c + 1) # ns)
          \<and> sorted_wrt (<) ((?c + 1) # ns) \<and> (\<forall>n \<in> set ((?c + 1) # ns). ?c < n)"
        by auto
      then show ?thesis by blast
    next
      case False
      with Insert res ns(1)
      have "minted_ids number_text table (call # calls) s = map toString ns"
        by (cases r) auto
      with ns b(3) show ?thesis by force
    qed
  qed
qed

text \<open>
  C8, as amended. Take any sequence of \<open>createTable\<close>, \<open>insert\<close>, \<open>update\<close> and \<open>delete\<close>
  calls on any tables, started in any store, during which the counter of the table stays
  strictly between \<open>-2^53\<close> and \<open>2^53\<close> (it grows by at most one with each call). The ids
  that the successful inserts into the table return are the decimal numerals of a strictly
  increasing sequence of integers; no id comes back twice, whatever was deleted in between.
\<close>

theorem minted_ids_strictly_increasing:
  assumes "- (2 ^ 53) < counter_start table s"
    and "counter_start table s + int (length calls) < 2 ^ 53"
  shows "\<exists>ns. minted_ids number_text table calls s = map toString ns
        \<and> map parseInteger (minted_ids number_text table calls s) = map Some ns
        \<and> sorted_wrt (<) ns
        \<and> distinct (minted_ids number_text table calls s)"
proof -
  from minted_ids_increase [OF assms]
  obtain ns where ns: "minted_ids number_text table calls s = map toString ns"
    "sorted_wrt (<) ns"
    by blast
  from ns(2) have "distinct ns" by (simp add: strict_sorted_iff)
  then have "distinct (map toString ns)"
    by (simp add: distinct_map inj_on_def) (metis toString_inject)
  moreover have "map parseInteger (map toString ns) = map Some ns"
    by (simp add: parseInteger_toString)
  ultimately show ?thesis using ns by auto
qed

theorem minted_ids_strictly_increasing_witness:
  "minted_ids unrounded ''t''
     [Insert ''t'' [(''a'', ''x'')] ''100'', Delete ''t'' ''1'', Insert ''t'' [(''a'', ''y'')] ''300'']
     table_t = [''1'', ''2'']
   \<and> (\<exists>ns. [''1'', ''2''] = map toString ns \<and> sorted_wrt (<) ns)"
proof -
  have h: "minted_ids unrounded ''t''
     [Insert ''t'' [(''a'', ''x'')] ''100'', Delete ''t'' ''1'', Insert ''t'' [(''a'', ''y'')] ''300'']
     table_t = [''1'', ''2'']"
    by (simp add: model_defs example_defs eval_nat_numeral)
  have c: "counter_start ''t'' table_t = 0"
    by (simp add: counter_start_def model_defs example_defs)
  have b1: "- (2 ^ 53) < counter_start ''t'' table_t"
    and b2: "counter_start ''t'' table_t
      + int (length [Insert ''t'' [(''a'', ''x'')] ''100'', Delete ''t'' ''1'',
          Insert ''t'' [(''a'', ''y'')] ''300'']) < 2 ^ 53"
    by (simp_all add: c)
  from minted_ids_strictly_increasing [OF b1 b2, of unrounded]
  obtain ns where ns: "minted_ids unrounded ''t''
     [Insert ''t'' [(''a'', ''x'')] ''100'', Delete ''t'' ''1'', Insert ''t'' [(''a'', ''y'')] ''300'']
     table_t = map toString ns" "sorted_wrt (<) ns"
    by blast
  from ns(1) have eq: "[''1'', ''2''] = map toString ns" by (simp only: h)
  have "\<exists>ns. [''1'', ''2''] = map toString ns \<and> sorted_wrt (<) ns"
    by (rule exI [of _ ns]) (rule conjI [OF eq ns(2)])
  then show ?thesis by (rule conjI [OF h])
qed

text \<open>
  C8 as stated fails once \<open>initNextId\<close>, which "initializes or resets" the counter, is
  called between two inserts: both of these inserts into \<open>t\<close> succeed and both return
  the id \<open>1\<close>.
\<close>

theorem minted_ids_counterexample:
  "fst (insert_row unrounded ''t'' [(''a'', ''x'')] ''100'' table_t) = Inr ''1''
   \<and> fst (insert_row unrounded ''t'' [(''a'', ''y'')] ''300''
            (initNextId ''t'' (snd (insert_row unrounded ''t'' [(''a'', ''x'')] ''100'' table_t))))
       = Inr ''1''"
  by (simp add: model_defs example_defs)

section \<open>Score ranges of sorted sets\<close>

lemma sorted_zset: "sorted_wrt zset_le (sort_by zset_le entries)"
proof (rule sorted_sort_by [where A = UNIV])
  show "\<forall>a \<in> UNIV. \<forall>b \<in> UNIV. zset_le a b \<or> zset_le b a"
    by (auto simp: zset_le_def)
  show "\<forall>a \<in> UNIV. \<forall>b \<in> UNIV. \<forall>c \<in> UNIV. zset_le a b \<longrightarrow> zset_le b c \<longrightarrow> zset_le a c"
    by (auto simp: zset_le_def)
qed simp

lemma formatted_withscores_reply: "formatted (withscores_reply entries) = entries"
  by (induction entries) (auto simp: withscores_reply_def)

lemma zrangebyscore_all:
  "mset (zrangebyscore key lo hi None s)
     = mset (filter (\<lambda>e. in_range lo hi (snd e)) (r_zsets s key))
   \<and> sorted (map snd (zrangebyscore key lo hi None s))"
proof -
  have "sorted_wrt (\<lambda>a b. snd a \<le> snd b) (sort_by zset_le (r_zsets s key))"
    by (rule sorted_wrt_mono_rel [OF _ sorted_zset]) (auto simp: zset_le_def)
  then have "sorted_wrt (\<lambda>a b. snd a \<le> snd b)
      (filter (\<lambda>e. in_range lo hi (snd e)) (sort_by zset_le (r_zsets s key)))"
    by (rule sorted_wrt_filter)
  then show ?thesis
    by (simp add: zrangebyscore_def sorted_map mset_filter mset_sort_by)
qed

lemma in_range_cases:
  "in_range lo hi sc \<longleftrightarrow>
     (case lo of NegInf \<Rightarrow> True | PosInf \<Rightarrow> False | Num l \<Rightarrow> l \<le> sc)
     \<and> (case hi of NegInf \<Rightarrow> False | PosInf \<Rightarrow> True | Num h \<Rightarrow> sc \<le> h)"
  by (simp add: in_range_def)

text \<open>
  C9. On a key that holds a sorted set, or nothing, \<open>getSortedSetByScore\<close> answers from
  \<open>matches\<close>: the entries of the sorted set whose score is at least \<open>lo\<close> and at most \<open>hi\<close>
  (both bounds included, \<open>NegInf\<close> and \<open>PosInf\<close> bounding nothing on their side), each as
  often as it is stored, by ascending score. Without options, or when \<open>offset\<close> or \<open>limit\<close>
  is missing, all of them are returned; when both are given, the first \<open>offset\<close> matches
  are dropped and the next \<open>limit\<close> returned. The result is the list of members, or of
  members with their scores when \<open>withScores\<close> is set. On a key that holds another type
  the call throws the server's error.
\<close>

theorem getSortedSetByScore_range:
  "\<exists>matches.
     mset matches = mset (filter (\<lambda>e.
         (case lo of NegInf \<Rightarrow> True | PosInf \<Rightarrow> False | Num l \<Rightarrow> l \<le> snd e)
         \<and> (case hi of NegInf \<Rightarrow> False | PosInf \<Rightarrow> True | Num h \<Rightarrow> snd e \<le> h))
       (r_zsets s key))
     \<and> sorted (map snd matches)
     \<and> (\<not> sorted_set_key key s \<longrightarrow> getSortedSetByScore key lo hi options s = Inl WrongType)
     \<and> (sorted_set_key key s \<longrightarrow>
          (options = None \<longrightarrow>
             getSortedSetByScore key lo hi options s = Inr (Inl (map fst matches)))
          \<and> (\<forall>opts. options = Some opts \<longrightarrow>
               (\<forall>off cnt. range_offset opts = Some off \<and> range_limit opts = Some cnt \<longrightarrow>
                  getSortedSetByScore key lo hi options s
                    = Inr (if withScores opts then Inr (take cnt (drop off matches))
                           else Inl (take cnt (drop off (map fst matches)))))
               \<and> (range_offset opts = None \<or> range_limit opts = None \<longrightarrow>
                  getSortedSetByScore key lo hi options s
                    = Inr (if withScores opts then Inr matches else Inl (map fst matches)))))"
proof -
  let ?matches = "zrangebyscore key lo hi None s"
  have lim: "\<And>off cnt. zrangebyscore key lo hi (Some (off, cnt)) s = take cnt (drop off ?matches)"
    by (simp add: zrangebyscore_def)
  have wrong: "\<not> sorted_set_key key s \<longrightarrow>
      getSortedSetByScore key lo hi options s = Inl WrongType"
    by (simp add: getSortedSetByScore_def zrangebyscore_reply_def)
  have right: "sorted_set_key key s \<longrightarrow>
     (options = None \<longrightarrow>
        getSortedSetByScore key lo hi options s = Inr (Inl (map fst ?matches)))
     \<and> (\<forall>opts. options = Some opts \<longrightarrow>
          (\<forall>off cnt. range_offset opts = Some off \<and> range_limit opts = Some cnt \<longrightarrow>
             getSortedSetByScore key lo hi options s
               = Inr (if withScores opts then Inr (take cnt (drop off ?matches))
                      else Inl (take cnt (drop off (map fst ?matches)))))
          \<and> (range_offset opts = None \<or> range_limit opts = None \<longrightarrow>
             getSortedSetByScore key lo hi options s
               = Inr (if withScores opts then Inr ?matches else Inl (map fst ?matches))))"
    by (auto simp: getSortedSetByScore_def zrangebyscore_reply_def lim
        formatted_withscores_reply take_map drop_map split: option.splits)
  from zrangebyscore_all [of key lo hi s] wrong right show ?thesis
    unfolding in_range_cases by blast
qed

theorem getSortedSetByScore_range_witness:
  "sorted_set_key ''board'' scores
   \<and> getSortedSetByScore ''board'' (Num 15) PosInf
     (Some \<lparr>range_limit = Some 2, range_offset = Some 1, withScores = False\<rparr>) scores
     = Inr (Inl [''c'', ''d''])
   \<and> getSortedSetByScore ''board'' NegInf (Num 30) None scores = Inr (Inl [''a'', ''b'', ''c''])
   \<and> \<not> sorted_set_key (rowsSetKey ''t'') one_row
   \<and> getSortedSetByScore (rowsSetKey ''t'') NegInf PosInf None one_row = Inl WrongType"
proof -
  have h1: "sorted_set_key ''board'' scores"
    by (simp add: sorted_set_key_def scores_def empty_store_def put_def)
  have h2: "\<not> sorted_set_key (rowsSetKey ''t'') one_row"
    by (simp add: model_defs example_defs)
  from getSortedSetByScore_range [of "Num 15" PosInf scores "''board''"
      "Some \<lparr>range_limit = Some 2, range_offset = Some 1, withScores = False\<rparr>"]
    getSortedSetByScore_range [of NegInf "Num 30" scores "''board''" None]
    getSortedSetByScore_range [of NegInf PosInf one_row "rowsSetKey ''t''" None]
    h1 h2
  show ?thesis
    by (simp add: getSortedSetByScore_def zrangebyscore_def zrangebyscore_reply_def
        sort_by_def zset_le_def in_range_def scores_def empty_store_def put_def r_zsets_def)
qed

section \<open>Query options\<close>

lemma sort_step_sorted:
  assumes "sortBy opts = Some field" and "field \<noteq> []"
    and "\<forall>r \<in> set rows. map_of (snd r) field \<noteq> None"
  shows "mset (sort_step opts rows) = mset rows
     \<and> sorted_wrt (\<lambda>a b.
            if sortOrder opts = Some desc
            then the (map_of (snd b) field) \<le> the (map_of (snd a) field)
            else the (map_of (snd a) field) \<le> the (map_of (snd b) field))
          (sort_step opts rows)"
proof -
  let ?le = "\<lambda>a b. compareFn field (sortOrder opts) a b \<le> 0"
  let ?ord = "\<lambda>a b. if sortOrder opts = Some desc
            then the (map_of (snd b) field) \<le> the (map_of (snd a) field)
            else the (map_of (snd a) field) \<le> the (map_of (snd b) field)"
  have eq: "\<forall>a \<in> set rows. \<forall>b \<in> set rows. ?le a b \<longleftrightarrow> ?ord a b"
  proof (intro ballI)
    fix a b assume "a \<in> set rows" "b \<in> set rows"
    with assms(3) obtain x y where "map_of (snd a) field = Some x" "map_of (snd b) field = Some y"
      by (meson option.exhaust)
    then show "?le a b \<longleftrightarrow> ?ord a b"
      by (auto simp: compareFn_def js_less_def js_get_def js_text_def Let_def)
  qed
  have step: "sort_step opts rows = sort_by ?le rows"
    using assms(1,2) by (simp add: sort_step_def)
  have tot: "\<forall>a \<in> set rows. \<forall>b \<in> set rows. ?le a b \<or> ?le b a"
    using eq by auto
  have tr: "\<forall>a \<in> set rows. \<forall>b \<in> set rows. \<forall>c \<in> set rows. ?le a b \<longrightarrow> ?le b c \<longrightarrow> ?le a c"
  proof (intro ballI impI)
    fix a b c assume m: "a \<in> set rows" "b \<in> set rows" "c \<in> set rows" and "?le a b" "?le b c"
    with eq have "?ord a b" "?ord b c" by auto
    then have "?ord a c" by (auto split: if_splits)
    with eq m show "?le a c" by auto
  qed
  have "sorted_wrt ?le (sort_by ?le rows)"
    by (rule sorted_sort_by [OF tot tr]) simp
  then have "sorted_wrt ?ord (sort_by ?le rows)"
  proof (rule sorted_wrt_mono_rel [rotated])
    fix a b assume "a \<in> set (sort_by ?le rows)" "b \<in> set (sort_by ?le rows)" "?le a b"
    with eq show "?ord a b" by (simp add: set_sort_by)
  qed
  with step show ?thesis by (simp add: mset_sort_by)
qed

text \<open>
  C10, as amended. When the \<open>sortBy\<close> option is a non-empty field name and every row that
  \<open>getAll\<close> (or \<open>findByField\<close>) fetches has that field, the result is cut out of
  \<open>ordered\<close>: the fetched rows, arranged so that the field's values ascend in the order of
  strings (character by character, a proper prefix first; so \<open>10\<close> comes before \<open>9\<close>),
  or descend when \<open>sortOrder\<close> is \<open>desc\<close>. The cut takes the offset first and the limit
  second, each as \<^verbatim>\<open>slice\<close> does; for natural numbers that is \<open>take limit (drop offset
  ordered)\<close>, see \<open>slice_nonneg\<close>. The fetched rows are those that the call returns without
  options; when fetching them throws, the call with options throws the same error.
\<close>

theorem sorted_queries:
  assumes "sortBy opts = Some field" and "field \<noteq> []"
  shows "(\<forall>rows. getAll table None s = Inr rows
            \<and> (\<forall>r \<in> set rows. map_of (snd r) field \<noteq> None) \<longrightarrow>
          (\<exists>ordered.
             mset ordered = mset rows
             \<and> sorted_wrt (\<lambda>a b.
                  if sortOrder opts = Some desc
                  then the (map_of (snd b) field) \<le> the (map_of (snd a) field)
                  else the (map_of (snd a) field) \<le> the (map_of (snd b) field)) ordered
             \<and> getAll table (Some opts) s
                 = Inr ((case q_limit opts of None \<Rightarrow> (\<lambda>xs. xs) | Some cnt \<Rightarrow> slice_upto cnt)
                     ((case q_offset opts of None \<Rightarrow> (\<lambda>xs. xs) | Some off \<Rightarrow> slice_from off)
                        ordered))))
     \<and> (\<forall>e. getAll table None s = Inl e \<longrightarrow> getAll table (Some opts) s = Inl e)
     \<and> (\<forall>rows. findByField table f v None s = Inr rows
            \<and> (\<forall>r \<in> set rows. map_of (snd r) field \<noteq> None) \<longrightarrow>
          (\<exists>ordered.
             mset ordered = mset rows
             \<and> sorted_wrt (\<lambda>a b.
                  if sortOrder opts = Some desc
                  then the (map_of (snd b) field) \<le> the (map_of (snd a) field)
                  else the (map_of (snd a) field) \<le> the (map_of (snd b) field)) ordered
             \<and> findByField table f v (Some opts) s
                 = Inr ((case q_limit opts of None \<Rightarrow> (\<lambda>xs. xs) | Some cnt \<Rightarrow> slice_upto cnt)
                     ((case q_offset opts of None \<Rightarrow> (\<lambda>xs. xs) | Some off \<Rightarrow> slice_from off)
                        ordered))))
     \<and> (\<forall>e. findByField table f v None s = Inl e \<longrightarrow> findByField table f v (Some opts) s = Inl e)"
proof -
  have gen: "\<And>rows. \<forall>r \<in> set rows. map_of (snd r) field \<noteq> None \<Longrightarrow>
      \<exists>ordered. mset ordered = mset rows
        \<and> sorted_wrt (\<lambda>a b.
              if sortOrder opts = Some desc
              then the (map_of (snd b) field) \<le> the (map_of (snd a) field)
              else the (map_of (snd a) field) \<le> the (map_of (snd b) field)) ordered
        \<and> applyQueryOptions rows (Some opts)
            = (case q_limit opts of None \<Rightarrow> (\<lambda>xs. xs) | Some cnt \<Rightarrow> slice_upto cnt)
                ((case q_offset opts of None \<Rightarrow> (\<lambda>xs. xs) | Some off \<Rightarrow> slice_from off)
                   ordered)"
  proof -
    fix rows :: "(string \<times> Row) list"
    assume "\<forall>r \<in> set rows. map_of (snd r) field \<noteq> None"
    from sort_step_sorted [OF assms this]
    show "\<exists>ordered. mset ordered = mset rows
        \<and> sorted_wrt (\<lambda>a b.
              if sortOrder opts = Some desc
              then the (map_of (snd b) field) \<le> the (map_of (snd a) field)
              else the (map_of (snd a) field) \<le> the (map_of (snd b) field)) ordered
        \<and> applyQueryOptions rows (Some opts)
            = (case q_limit opts of None \<Rightarrow> (\<lambda>xs. xs) | Some cnt \<Rightarrow> slice_upto cnt)
                ((case q_offset opts of None \<Rightarrow> (\<lambda>xs. xs) | Some off \<Rightarrow> slice_from off)
                   ordered)"
      by (intro exI [of _ "sort_step opts rows"])
        (simp add: applyQueryOptions_def limit_step_def offset_step_def split: option.splits)
  qed
  have a: "\<And>rows. getAll table None s = Inr rows \<Longrightarrow>
      getAll table (Some opts) s = Inr (applyQueryOptions rows (Some opts))"
    by (subst getAll_options) simp
  have b: "\<And>rows. findByField table f v None s = Inr rows \<Longrightarrow>
      findByField table f v (Some opts) s = Inr (applyQueryOptions rows (Some opts))"
    by (subst findByField_options) simp
  have c: "\<And>e. getAll table None s = Inl e \<Longrightarrow> getAll table (Some opts) s = Inl e"
    by (subst getAll_options) simp
  have d: "\<And>e. findByField table f v None s = Inl e \<Longrightarrow>
      findByField table f v (Some opts) s = Inl e"
    by (subst findByField_options) simp
  show ?thesis
  proof (intro conjI allI impI)
    fix rows
    assume "getAll table None s = Inr rows \<and> (\<forall>r \<in> set rows. map_of (snd r) field \<noteq> None)"
    with gen [of rows] a [of rows]
    show "\<exists>ordered.
             mset ordered = mset rows
             \<and> sorted_wrt (\<lambda>a b.
                  if sortOrder opts = Some desc
                  then the (map_of (snd b) field) \<le> the (map_of (snd a) field)
                  else the (map_of (snd a) field) \<le> the (map_of (snd b) field)) ordered
             \<and> getAll table (Some opts) s
                 = Inr ((case q_limit opts of None \<Rightarrow> (\<lambda>xs. xs) | Some cnt \<Rightarrow> slice_upto cnt)
                     ((case q_offset opts of None \<Rightarrow> (\<lambda>xs. xs) | Some off \<Rightarrow> slice_from off)
                        ordered))"
      by simp
  next
    fix rows
    assume "findByField table f v None s = Inr rows
        \<and> (\<forall>r \<in> set rows. map_of (snd r) field \<noteq> None)"
    with gen [of rows] b [of rows]
    show "\<exists>ordered.
             mset ordered = mset rows
             \<and> sorted_wrt (\<lambda>a b.
                  if sortOrder opts = Some desc
                  then the (map_of (snd b) field) \<le> the (map_of (snd a) field)
                  else the (map_of (snd a) field) \<le> the (map_of (snd b) field)) ordered
             \<and> findByField table f v (Some opts) s
                 = Inr ((case q_limit opts of None \<Rightarrow> (\<lambda>xs. xs) | Some cnt \<Rightarrow> slice_upto cnt)
                     ((case q_offset opts of None \<Rightarrow> (\<lambda>xs. xs) | Some off \<Rightarrow> slice_from off)
                        ordered))"
      by simp
  qed (use c d in auto)
qed

theorem sorted_queries_witness:
  "getAll ''n'' None numerals
     = Inr [(''1'', [(''k'', ''9''), (''_created_at'', ''100''), (''_updated_at'', ''100'')]),
            (''2'', [(''k'', ''10''), (''_created_at'', ''100''), (''_updated_at'', ''100'')])]
   \<and> getAll ''n''
     (Some \<lparr>q_limit = None, q_offset = None, sortBy = Some ''k'', sortOrder = None\<rparr>) numerals
     = Inr [(''2'', [(''k'', ''10''), (''_created_at'', ''100''), (''_updated_at'', ''100'')]),
            (''1'', [(''k'', ''9''), (''_created_at'', ''100''), (''_updated_at'', ''100'')])]
   \<and> findByField ''n'' ''k'' ''9''
     (Some \<lparr>q_limit = Some 1, q_offset = Some 0, sortBy = Some ''k'', sortOrder = Some desc\<rparr>)
     numerals
     = Inr [(''1'', [(''k'', ''9''), (''_created_at'', ''100''), (''_updated_at'', ''100'')])]"
proof -
  have h1: "sortBy \<lparr>q_limit = None, q_offset = None, sortBy = Some ''k'', sortOrder = None\<rparr>
      = Some ''k''"
    by simp
  have h2: "sortBy \<lparr>q_limit = Some 1, q_offset = Some 0, sortBy = Some ''k'',
      sortOrder = Some desc\<rparr> = Some ''k''"
    by simp
  have h3: "''k'' \<noteq> []" by simp
  from sorted_queries [OF h1 h3, of "''n''" numerals "''k''" "''9''"]
    sorted_queries [OF h2 h3, of "''n''" numerals "''k''" "''9''"]
  show ?thesis
    by (simp add: model_defs example_defs getAll_def findByField_def applyQueryOptions_def
        sort_step_def offset_step_def limit_step_def sort_by_def compareFn_def js_less_def
        js_text_def slice_from_def slice_upto_def)
qed

text \<open>
  C10 as stated covers every call with a \<open>sortBy\<close> option. \<^verbatim>\<open>if (options.sortBy)\<close> takes
  the empty string for no option at all: in \<open>blank_field\<close> the table \<open>u\<close> has one field,
  named by the empty string, with the value \<open>b\<close> in row \<open>1\<close> and \<open>a\<close> in row \<open>2\<close>. \<open>getAll\<close>
  sorted by that field returns the rows in the same order ascending and descending, the
  order it returns them in without options.
\<close>

theorem sorted_queries_counterexample:
  "getAll ''u''
     (Some \<lparr>q_limit = None, q_offset = None, sortBy = Some '''', sortOrder = Some asc\<rparr>)
     blank_field
     = Inr [(''1'', [('''', ''b''), (''_created_at'', ''100''), (''_updated_at'', ''100'')]),
            (''2'', [('''', ''a''), (''_created_at'', ''100''), (''_updated_at'', ''100'')])]
   \<and> getAll ''u''
     (Some \<lparr>q_limit = None, q_offset = None, sortBy = Some '''', sortOrder = Some desc\<rparr>)
     blank_field
     = Inr [(''1'', [('''', ''b''), (''_created_at'', ''100''), (''_updated_at'', ''100'')]),
            (''2'', [('''', ''a''), (''_created_at'', ''100''), (''_updated_at'', ''100'')])]
   \<and> getAll ''u'' None blank_field
     = Inr [(''1'', [('''', ''b''), (''_created_at'', ''100''), (''_updated_at'', ''100'')]),
            (''2'', [('''', ''a''), (''_created_at'', ''100''), (''_updated_at'', ''100'')])]
   \<and> \<not> ''b'' \<le> ''a''"
  by (simp add: model_defs example_defs getAll_def applyQueryOptions_def
      sort_step_def offset_step_def limit_step_def)

end
